theory Spec2Isabelle
  imports Main "HOL-Library.AList" "HOL-Library.Sublist"
begin

section \<open>Comment chains of \<^verbatim>\<open>RedditUserScraper.get_user_comments_on_posts\<close>\<close>

text \<open>
  The method \<^verbatim>\<open>get_user_comments_on_posts\<close> of \<^verbatim>\<open>src/scraper.py\<close> reads the
  stream \<^verbatim>\<open>user.comments.new(limit=None)\<close> of one user's comments, keeps those on the
  posts of \<^verbatim>\<open>post_ids\<close>, selects the comments that lie on a reply chain rooted in one
  of the user's top-level comments, gives each its depth, groups them by post and sorts each
  group by creation time. The stream is the input of the model; fetching it is not modelled.
\<close>

subsection \<open>Data\<close>

text \<open>
  The attributes the method reads of a comment of the stream. \<^verbatim>\<open>comment.submission.id\<close>
  is the field \<open>c_submission_id\<close>. The creation time is the number of seconds since the
  epoch; only its order is used.
\<close>

record comment =
  c_id :: string
  c_body :: string
  c_score :: int
  c_created_utc :: int
  c_permalink :: string
  c_parent_id :: string
  c_is_submitter :: bool
  c_submission_id :: string

text \<open>
  The dictionary \<^verbatim>\<open>comment_data\<close> built for each comment kept (lines 114 to 125). The
  key \<^verbatim>\<open>'id'\<close> is the field \<open>id'\<close>.
\<close>

record comment_data =
  id' :: string
  body :: string
  score :: int
  created_utc :: int
  created_datetime :: string
  permalink :: string
  parent_id :: string
  is_submitter :: bool
  post_id :: string
  depth :: int

text \<open>
  \<^verbatim>\<open>all_user_comments\<close> and \<^verbatim>\<open>comments_by_post\<close> are dictionaries, which keep
  the order in which their keys were first inserted: association lists, written with
  \<^const>\<open>AList.update\<close>, which replaces the value of a key in place and appends a new key.
\<close>

type_synonym all_user_comments = "(string \<times> comment_data) list"

type_synonym comments_by_post = "(string \<times> comment_data list) list"

text \<open>\<^verbatim>\<open>s.startswith(p)\<close>\<close>

definition startswith :: "string \<Rightarrow> string \<Rightarrow> bool" where
  "startswith s p = (take (length p) s = p)"

subsection \<open>First pass: the user's comments on the target posts\<close>

text \<open>
  Lines 114 to 125. \<^verbatim>\<open>datetime.fromtimestamp(t).isoformat()\<close> belongs to the standard
  library and is the parameter \<open>isoformat\<close>.
\<close>

definition comment_data_of :: "(int \<Rightarrow> string) \<Rightarrow> comment \<Rightarrow> comment_data" where
  "comment_data_of isoformat c =
     \<lparr> id' = c_id c,
       body = c_body c,
       score = c_score c,
       created_utc = c_created_utc c,
       created_datetime = isoformat (c_created_utc c),
       permalink = ''https://reddit.com'' @ c_permalink c,
       parent_id = c_parent_id c,
       is_submitter = c_is_submitter c,
       post_id = c_submission_id c,
       depth = 0 \<rparr>"

text \<open>
  Lines 109 to 132: the loop over the stream, with the two collections it fills as
  accumulator.
\<close>

fun first_pass ::
  "(int \<Rightarrow> string) \<Rightarrow> string list \<Rightarrow> comment list \<Rightarrow> all_user_comments \<times> string set
     \<Rightarrow> all_user_comments \<times> string set" where
  "first_pass isoformat post_ids [] (auc, top_level_comment_ids) = (auc, top_level_comment_ids)"
| "first_pass isoformat post_ids (c # rest) (auc, top_level_comment_ids) =
     (if c_submission_id c \<in> set post_ids then
        first_pass isoformat post_ids rest
          (AList.update (c_id c) (comment_data_of isoformat c) auc,
           if startswith (c_parent_id c) ''t3_'' then insert (c_id c) top_level_comment_ids
           else top_level_comment_ids)
      else first_pass isoformat post_ids rest (auc, top_level_comment_ids))"

subsection \<open>Second pass: chain membership\<close>

text \<open>
  Lines 135 to 163. \<^verbatim>\<open>visited\<close> is created empty by the outer call and handed down,
  each call adding its own comment id. The recursion ends because every recursive call has
  added to \<^verbatim>\<open>visited\<close> a key of \<^verbatim>\<open>all_user_comments\<close> that was not in it.
\<close>

function is_in_user_chain :: "all_user_comments \<Rightarrow> string set \<Rightarrow> string \<Rightarrow> string set \<Rightarrow> bool" where
  "is_in_user_chain auc top_level_comment_ids comment_id visited =
     (if comment_id \<in> visited then False
      else if comment_id \<in> top_level_comment_ids then True
      else (case map_of auc comment_id of
              None \<Rightarrow> False
            | Some cd \<Rightarrow>
                if startswith (parent_id cd) ''t3_'' then False
                else
                  (let parent_comment_id =
                         (if startswith (parent_id cd) ''t1_'' then drop 3 (parent_id cd)
                          else parent_id cd)
                   in parent_comment_id \<in> fst ` set auc \<and>
                      is_in_user_chain auc top_level_comment_ids parent_comment_id
                        (insert comment_id visited))))"
  by pat_completeness auto

termination
proof (relation "measure (\<lambda>(auc, top, k, visited). card (fst ` set auc - visited))")
  show "wf (measure (\<lambda>(auc, top, k, visited). card (fst ` set auc - visited)))"
    by simp
next
  fix auc :: all_user_comments and top_level_comment_ids :: "string set"
    and comment_id :: string and visited :: "string set" and cd :: comment_data
    and pc :: string
  assume fresh: "comment_id \<notin> visited"
    and found: "map_of auc comment_id = Some cd"
  from found have "comment_id \<in> fst ` set auc"
    by (metis map_of_eq_None_iff option.distinct(1))
  with fresh have "fst ` set auc - insert comment_id visited \<subset> fst ` set auc - visited"
    by auto
  then have "card (fst ` set auc - insert comment_id visited) < card (fst ` set auc - visited)"
    by (intro psubset_card_mono) simp_all
  then show "((auc, top_level_comment_ids, pc, insert comment_id visited),
              (auc, top_level_comment_ids, comment_id, visited))
             \<in> measure (\<lambda>(auc, top, k, visited). card (fst ` set auc - visited))"
    by simp
qed

declare is_in_user_chain.simps [simp del]

subsection \<open>Second pass: depth\<close>

text \<open>
  Lines 175 to 181, the \<^verbatim>\<open>while\<close> loop, with \<^verbatim>\<open>current_parent\<close> and
  \<^verbatim>\<open>depth\<close> as its state. Nothing in the loop bounds the number of its rounds, so the
  result is optional: \<open>None\<close> is a loop that never leaves.
\<close>

partial_function (option) depth_walk :: "all_user_comments \<Rightarrow> string \<Rightarrow> int \<Rightarrow> int option" where
  "depth_walk auc current_parent d =
     (if startswith current_parent ''t1_'' then
        (let d' = d + 1; parent_comment_id = drop 3 current_parent
         in (case map_of auc parent_comment_id of
               Some cd \<Rightarrow> depth_walk auc (parent_id cd) d'
             | None \<Rightarrow> Some d'))
      else Some d)"

declare depth_walk.simps [code]

text \<open>
  Lines 185 to 188: \<^verbatim>\<open>comments_by_post[post_id].append(comment_data)\<close>, the list being
  created when the key is new.
\<close>

definition append_comment :: "string \<Rightarrow> comment_data \<Rightarrow> comments_by_post \<Rightarrow> comments_by_post" where
  "append_comment p cd cbp =
     AList.update p ((case map_of cbp p of None \<Rightarrow> [] | Some l \<Rightarrow> l) @ [cd]) cbp"

text \<open>
  Lines 166 to 188: the loop over \<^verbatim>\<open>all_user_comments.items()\<close>. The assignment
  \<^verbatim>\<open>comment_data['depth'] = depth\<close> changes the dictionary that is appended next; the
  membership test and the depth loop read the keys and the \<^verbatim>\<open>parent_id\<close> fields of
  \<^verbatim>\<open>all_user_comments\<close> only, which no assignment changes, so the collection they read
  is the one the first pass left. A top-level comment keeps the depth 0 it was built with.
\<close>

fun second_pass ::
  "all_user_comments \<Rightarrow> string set \<Rightarrow> (string \<times> comment_data) list \<Rightarrow> comments_by_post
     \<Rightarrow> comments_by_post option" where
  "second_pass auc top_level_comment_ids [] cbp = Some cbp"
| "second_pass auc top_level_comment_ids ((comment_id, cd) # rest) cbp =
     (if comment_id \<in> top_level_comment_ids
         \<or> is_in_user_chain auc top_level_comment_ids comment_id {} then
        (if comment_id \<notin> top_level_comment_ids then
           (case depth_walk auc (parent_id cd) 0 of
              None \<Rightarrow> None
            | Some d \<Rightarrow>
                second_pass auc top_level_comment_ids rest
                  (append_comment (post_id cd) (cd\<lparr>depth := d\<rparr>) cbp))
         else second_pass auc top_level_comment_ids rest (append_comment (post_id cd) cd cbp))
      else second_pass auc top_level_comment_ids rest cbp)"

subsection \<open>The method\<close>

text \<open>
  Lines 190 to 192: \<^verbatim>\<open>list.sort\<close> is a stable sort, as \<^const>\<open>sort_key\<close> is.
\<close>

definition sort_groups :: "comments_by_post \<Rightarrow> comments_by_post" where
  "sort_groups cbp = map (\<lambda>(p, l). (p, sort_key created_utc l)) cbp"

text \<open>
  Lines 101 to 194, from the stream on. The result is \<open>None\<close> when the depth loop of some
  comment never ends. The handler of line 196 catches the failures of the network and of the
  interpreter's recursion limit, which are outside the model: nothing in the two passes raises.
\<close>

definition get_user_comments_on_posts ::
  "(int \<Rightarrow> string) \<Rightarrow> string list \<Rightarrow> comment list \<Rightarrow> comments_by_post option" where
  "get_user_comments_on_posts isoformat post_ids stream =
     (case first_pass isoformat post_ids stream ([], {}) of
        (auc, top_level_comment_ids) \<Rightarrow>
          (case second_pass auc top_level_comment_ids auc [] of
             None \<Rightarrow> None
           | Some cbp \<Rightarrow> Some (sort_groups cbp)))"


definition on_target :: "string list \<Rightarrow> comment \<Rightarrow> bool" where
  "on_target post_ids c = (c_submission_id c \<in> set post_ids)"

definition is_submission_ref :: "string \<Rightarrow> bool" where
  "is_submission_ref r = startswith r ''t3_''"

definition referenced_comment :: "string \<Rightarrow> string" where
  "referenced_comment r = (if startswith r ''t1_'' then drop 3 r else r)"

inductive user_chain :: "comment_data list \<Rightarrow> comment_data \<Rightarrow> bool" for cds where
  top_level: "c \<in> set cds \<Longrightarrow> is_submission_ref (parent_id c) \<Longrightarrow> user_chain cds c"
| reply: "c \<in> set cds \<Longrightarrow> \<not> is_submission_ref (parent_id c) \<Longrightarrow> p \<in> set cds
          \<Longrightarrow> id' p = referenced_comment (parent_id c) \<Longrightarrow> user_chain cds p \<Longrightarrow> user_chain cds c"

inductive hops :: "comment_data list \<Rightarrow> comment_data \<Rightarrow> nat \<Rightarrow> bool" for cds where
  root: "c \<in> set cds \<Longrightarrow> is_submission_ref (parent_id c) \<Longrightarrow> hops cds c 0"
| hop: "c \<in> set cds \<Longrightarrow> \<not> is_submission_ref (parent_id c) \<Longrightarrow> p \<in> set cds
          \<Longrightarrow> id' p = referenced_comment (parent_id c) \<Longrightarrow> hops cds p n \<Longrightarrow> hops cds c (Suc n)"

definition consistent :: "all_user_comments \<Rightarrow> string set \<Rightarrow> bool" where
  "consistent auc tlc \<longleftrightarrow>
     distinct (map fst auc) \<and> (\<forall>(k, cd) \<in> set auc. id' cd = k) \<and>
     tlc = {k. \<exists>cd. map_of auc k = Some cd \<and> startswith (parent_id cd) ''t3_''}"

definition retained :: "all_user_comments \<Rightarrow> string set \<Rightarrow> string \<Rightarrow> bool" where
  "retained auc tlc k \<longleftrightarrow> k \<in> tlc \<or> is_in_user_chain auc tlc k {}"

definition assigned :: "all_user_comments \<Rightarrow> string set \<Rightarrow> string \<times> comment_data \<Rightarrow> comment_data option" where
  "assigned auc tlc kc =
     (if fst kc \<in> tlc then Some (snd kc)
      else map_option (\<lambda>d. (snd kc)\<lparr>depth := d\<rparr>) (depth_walk auc (parent_id (snd kc)) 0))"

definition grouped :: "comment_data list \<Rightarrow> comments_by_post \<Rightarrow> comments_by_post" where
  "grouped rs cbp = fold (\<lambda>r. append_comment (post_id r) r) rs cbp"

definition target_comments :: "(int \<Rightarrow> string) \<Rightarrow> string list \<Rightarrow> comment list \<Rightarrow> comment_data list" where
  "target_comments fmt post_ids stream =
     map (comment_data_of fmt) (filter (\<lambda>c. c_submission_id c \<in> set post_ids) stream)"

definition output_comments :: "comments_by_post \<Rightarrow> comment_data list" where
  "output_comments out = concat (map snd out)"

definition example_isoformat :: "int \<Rightarrow> string" where
  "example_isoformat t = ''1970-01-01T00:00:00''"

definition example_comment :: "string \<Rightarrow> string \<Rightarrow> string \<Rightarrow> int \<Rightarrow> comment" where
  "example_comment i p s t =
     \<lparr> c_id = i, c_body = ''text'', c_score = 1, c_created_utc = t,
       c_permalink = ''/r/hfy/comments/'' @ s, c_parent_id = p, c_is_submitter = True,
       c_submission_id = s \<rparr>"

definition example_stream :: "comment list" where
  "example_stream =
     [example_comment ''c5'' ''t3_p1'' ''p1'' 20,
      example_comment ''c2'' ''t1_c1'' ''p1'' 20,
      example_comment ''c1'' ''t3_p1'' ''p1'' 10,
      example_comment ''c3'' ''t1_zz'' ''p1'' 30,
      example_comment ''c4'' ''t3_p2'' ''p2'' 5]"

definition example_data :: "string \<Rightarrow> string \<Rightarrow> string \<Rightarrow> int \<Rightarrow> int \<Rightarrow> comment_data" where
  "example_data i p s t d =
     (comment_data_of example_isoformat (example_comment i p s t))\<lparr>depth := d\<rparr>"

definition example_group :: "comment_data list" where
  "example_group =
     [example_data ''c1'' ''t3_p1'' ''p1'' 10 0,
      example_data ''c5'' ''t3_p1'' ''p1'' 20 0,
      example_data ''c2'' ''t1_c1'' ''p1'' 20 1]"

definition example_output :: comments_by_post where
  "example_output = [(''p1'', example_group)]"

definition example_cyclic_stream :: "comment list" where
  "example_cyclic_stream =
     [example_comment ''a'' ''t1_b'' ''p1'' 40,
      example_comment ''b'' ''t1_a'' ''p1'' 30,
      example_comment ''s'' ''t1_s'' ''p1'' 20,
      example_comment ''c1'' ''t3_p1'' ''p1'' 10]"

definition example_cyclic_output :: comments_by_post where
  "example_cyclic_output = [(''p1'', [example_data ''c1'' ''t3_p1'' ''p1'' 10 0])]"

definition example_duplicate_stream :: "comment list" where
  "example_duplicate_stream =
     [example_comment ''x'' ''t3_p1'' ''p1'' 10,
      example_comment ''y'' ''t1_x'' ''p1'' 20,
      example_comment ''x'' ''t1_y'' ''p1'' 30]"

definition example_duplicate_index :: all_user_comments where
  "example_duplicate_index =
     [(''x'', comment_data_of example_isoformat (example_comment ''x'' ''t1_y'' ''p1'' 30)),
      (''y'', comment_data_of example_isoformat (example_comment ''y'' ''t1_x'' ''p1'' 20))]"

lemma update_fresh: "k \<notin> fst ` set al \<Longrightarrow> AList.update k v al = al @ [(k, v)]"
  by (induction al) auto

lemma first_pass_keys_distinct:
  "first_pass fmt ps stream (auc0, tlc0) = (auc, tlc) \<Longrightarrow> distinct (map fst auc0)
   \<Longrightarrow> distinct (map fst auc)"
  by (induction stream arbitrary: auc0 tlc0) (auto simp: distinct_update split: if_splits)

lemma first_pass_origin:
  "first_pass fmt ps stream (auc0, tlc0) = (auc, tlc) \<Longrightarrow> (k, cd) \<in> set auc
   \<Longrightarrow> (k, cd) \<in> set auc0
       \<or> (\<exists>c \<in> set stream. c_submission_id c \<in> set ps \<and> k = c_id c \<and> cd = comment_data_of fmt c)"
proof (induction stream arbitrary: auc0 tlc0)
  case Nil
  then show ?case by simp
next
  case (Cons c rest)
  show ?case
  proof (cases "c_submission_id c \<in> set ps")
    case False
    with Cons.prems Cons.IH show ?thesis by auto
  next
    case True
    let ?auc1 = "AList.update (c_id c) (comment_data_of fmt c) auc0"
    from True Cons.prems obtain tlc1 where "first_pass fmt ps rest (?auc1, tlc1) = (auc, tlc)"
      by auto
    from Cons.IH[OF this Cons.prems(2)]
    have "(k, cd) \<in> set ?auc1
       \<or> (\<exists>c \<in> set rest. c_submission_id c \<in> set ps \<and> k = c_id c \<and> cd = comment_data_of fmt c)" .
    moreover have "(k, cd) \<in> set ?auc1 \<Longrightarrow> (k, cd) \<in> set auc0 \<or> (k = c_id c \<and> cd = comment_data_of fmt c)"
      by (induction auc0) (auto split: if_splits)
    ultimately show ?thesis using True by auto
  qed
qed

lemma first_pass_closed_form:
  "distinct (map c_id (filter (on_target ps) stream))
   \<Longrightarrow> fst ` set auc0 \<inter> c_id ` set (filter (on_target ps) stream) = {}
   \<Longrightarrow> first_pass fmt ps stream (auc0, tlc0) =
       (auc0 @ map (\<lambda>c. (c_id c, comment_data_of fmt c)) (filter (on_target ps) stream),
        tlc0 \<union> c_id ` {c \<in> set stream. on_target ps c \<and> startswith (c_parent_id c) ''t3_''})"
proof (induction stream arbitrary: auc0 tlc0)
  case Nil
  then show ?case by simp
next
  case (Cons c rest)
  show ?case
  proof (cases "on_target ps c")
    case False
    with Cons show ?thesis by (auto simp: on_target_def)
  next
    case True
    let ?auc1 = "AList.update (c_id c) (comment_data_of fmt c) auc0"
    from True Cons.prems have fresh: "c_id c \<notin> fst ` set auc0" by auto
    then have auc1: "?auc1 = auc0 @ [(c_id c, comment_data_of fmt c)]" by (rule update_fresh)
    have d: "distinct (map c_id (filter (on_target ps) rest))" using Cons.prems True by simp
    have "fst ` set ?auc1 \<inter> c_id ` set (filter (on_target ps) rest) = {}"
      using Cons.prems True by (auto simp: auc1)
    from Cons.IH[OF d this] True show ?thesis
      by (auto simp: auc1 on_target_def)
  qed
qed

lemma first_pass_subseq:
  "first_pass fmt ps stream (auc0, tlc0) = (auc, tlc) \<Longrightarrow> distinct (map fst auc0) \<Longrightarrow>
   \<exists>ks. map fst auc = map fst auc0 @ ks \<and> subseq ks (map c_id stream)"
proof (induction stream arbitrary: auc0 tlc0)
  case Nil
  then show ?case by simp
next
  case (Cons c rest)
  show ?case
  proof (cases "c_submission_id c \<in> set ps")
    case False
    with Cons.prems Cons.IH[of auc0 tlc0] show ?thesis by (auto intro: subseq_Cons')
  next
    case True
    let ?auc1 = "AList.update (c_id c) (comment_data_of fmt c) auc0"
    from True Cons.prems obtain tlc1 where fp: "first_pass fmt ps rest (?auc1, tlc1) = (auc, tlc)"
      by auto
    have "distinct (map fst ?auc1)" using Cons.prems(2) by (rule distinct_update)
    from Cons.IH[OF fp this] obtain ks where ks: "map fst auc = map fst ?auc1 @ ks" "subseq ks (map c_id rest)"
      by blast
    show ?thesis
    proof (cases "c_id c \<in> set (map fst auc0)")
      case True
      with ks show ?thesis by (auto simp: update_keys intro: subseq_Cons')
    next
      case False
      with ks show ?thesis by (auto simp: update_keys)
    qed
  qed
qed

lemma user_chain_hops: "user_chain cds c \<longleftrightarrow> (\<exists>n. hops cds c n)"
proof
  assume "user_chain cds c"
  then show "\<exists>n. hops cds c n"
    by induction (auto intro: hops.intros)
next
  assume "\<exists>n. hops cds c n"
  then obtain n where "hops cds c n" ..
  then show "user_chain cds c"
    by induction (auto intro: user_chain.intros)
qed

lemma hops_in: "hops cds c n \<Longrightarrow> c \<in> set cds"
  by (erule hops.cases) auto

lemma hops_unique:
  assumes "distinct (map id' cds)"
  shows "hops cds c n \<Longrightarrow> hops cds c m \<Longrightarrow> n = m"
proof (induction arbitrary: m rule: hops.induct)
  case (root c)
  from root.prems root.hyps show ?case by (auto elim: hops.cases)
next
  case (hop c p n)
  from hop.prems hop.hyps(2) obtain q j where q: "m = Suc j" "q \<in> set cds"
      "id' q = referenced_comment (parent_id c)" "hops cds q j"
    by (auto elim: hops.cases)
  from q(3) hop.hyps(4) have "id' q = id' p" by simp
  with assms q(2) hop.hyps(3) have "q = p"
    by (meson distinct_map inj_onD)
  with q(4) hop.IH have "n = j" by simp
  with q(1) show ?case by simp
qed

lemma consistent_lookup:
  assumes "consistent auc tlc" "cd \<in> set (map snd auc)"
  shows "map_of auc (id' cd) = Some cd"
proof -
  from assms(2) obtain k where "(k, cd) \<in> set auc" by auto
  with assms(1) show ?thesis by (auto simp: consistent_def)
qed

lemma consistent_ids: "consistent auc tlc \<Longrightarrow> map id' (map snd auc) = map fst auc"
  by (auto simp: consistent_def)

lemma consistent_distinct: "consistent auc tlc \<Longrightarrow> distinct (map id' (map snd auc))"
  using consistent_ids[of auc tlc] by (simp add: consistent_def del: map_map)

lemma consistent_top:
  "consistent auc tlc \<Longrightarrow> map_of auc k = Some cd \<Longrightarrow> k \<in> tlc \<longleftrightarrow> startswith (parent_id cd) ''t3_''"
proof -
  assume c: "consistent auc tlc" and l: "map_of auc k = Some cd"
  from c have "tlc = {k. \<exists>cd. map_of auc k = Some cd \<and> startswith (parent_id cd) ''t3_''}"
    unfolding consistent_def by blast
  then have "k \<in> tlc \<longleftrightarrow> (\<exists>cd'. map_of auc k = Some cd' \<and> startswith (parent_id cd') ''t3_'')"
    by blast
  with l show ?thesis by simp
qed

lemma chain_sound:
  "is_in_user_chain auc tlc k V \<Longrightarrow> consistent auc tlc
   \<Longrightarrow> \<exists>cd n. map_of auc k = Some cd \<and> hops (map snd auc) cd n"
proof (induction auc tlc k V rule: is_in_user_chain.induct)
  case (1 auc tlc k V)
  from "1.prems"(1) have notV: "k \<notin> V"
    by (subst (asm) is_in_user_chain.simps) (simp split: if_splits)
  show ?case
  proof (cases "k \<in> tlc")
    case True
    with "1.prems"(2) obtain cd where cd: "map_of auc k = Some cd" "startswith (parent_id cd) ''t3_''"
      by (auto simp: consistent_def)
    then have "cd \<in> set (map snd auc)" by (force dest: map_of_SomeD)
    with cd have "hops (map snd auc) cd 0"
      by (intro hops.root) (simp_all add: is_submission_ref_def)
    with cd show ?thesis by blast
  next
    case False
    with notV "1.prems"(1) obtain cd where cd: "map_of auc k = Some cd"
      by (subst (asm) is_in_user_chain.simps) (auto split: option.splits)
    with notV False "1.prems"(1) have nt3: "\<not> startswith (parent_id cd) ''t3_''"
      by (subst (asm) is_in_user_chain.simps) (auto split: if_splits)
    define pc where "pc = (if startswith (parent_id cd) ''t1_'' then drop 3 (parent_id cd) else parent_id cd)"
    from notV False cd nt3 "1.prems"(1) have rec: "is_in_user_chain auc tlc pc (insert k V)"
      by (subst (asm) is_in_user_chain.simps) (simp add: pc_def Let_def)
    from "1.IH"[OF notV False cd nt3 pc_def rec "1.prems"(2)]
    obtain p n where p: "map_of auc pc = Some p" "hops (map snd auc) p n" by blast
    from p(1) have "(pc, p) \<in> set auc" by (rule map_of_SomeD)
    with "1.prems"(2) have idp: "id' p = pc" by (auto simp: consistent_def)
    from cd have cdin: "cd \<in> set (map snd auc)" by (force dest: map_of_SomeD)
    have "hops (map snd auc) cd (Suc n)"
      using cdin nt3 hops_in[OF p(2)] idp p(2)
      by (intro hops.hop[where p = p]) (simp_all add: is_submission_ref_def referenced_comment_def pc_def)
    with cd show ?thesis by blast
  qed
qed

lemma chain_complete:
  assumes con: "consistent auc tlc"
  shows "hops (map snd auc) c n
   \<Longrightarrow> (\<And>v cd m. v \<in> V \<Longrightarrow> map_of auc v = Some cd \<Longrightarrow> hops (map snd auc) cd m \<Longrightarrow> n < m)
   \<Longrightarrow> is_in_user_chain auc tlc (id' c) V"
proof (induction arbitrary: V rule: hops.induct)
  case (root c)
  from con root.hyps(1) have look: "map_of auc (id' c) = Some c" by (rule consistent_lookup)
  have "hops (map snd auc) c 0" using root.hyps by (rule hops.root)
  with root.prems look have "id' c \<notin> V" by (metis less_irrefl)
  moreover from look root.hyps(2) consistent_top[OF con look] have "id' c \<in> tlc"
    by (simp add: is_submission_ref_def)
  ultimately show ?case by (subst is_in_user_chain.simps) simp
next
  case (hop c p n)
  from con hop.hyps(1) have look: "map_of auc (id' c) = Some c" by (rule consistent_lookup)
  have hc: "hops (map snd auc) c (Suc n)" using hop.hyps by (rule hops.hop)
  with hop.prems look have notV: "id' c \<notin> V" by (metis less_irrefl)
  from look hop.hyps(2) consistent_top[OF con look] have nottop: "id' c \<notin> tlc"
    by (simp add: is_submission_ref_def)
  from con hop.hyps(3) have lookp: "map_of auc (id' p) = Some p" by (rule consistent_lookup)
  then have pin: "id' p \<in> fst ` set auc"
    by (metis map_of_eq_None_iff option.distinct(1))
  have rec: "is_in_user_chain auc tlc (id' p) (insert (id' c) V)"
  proof (rule hop.IH)
    fix v cd m
    assume v: "v \<in> insert (id' c) V" "map_of auc v = Some cd" "hops (map snd auc) cd m"
    show "n < m"
    proof (cases "v = id' c")
      case True
      with v look have "cd = c" by simp
      with v hc hops_unique[OF consistent_distinct[OF con]] have "m = Suc n" by blast
      then show ?thesis by simp
    next
      case False
      with v hop.prems have "Suc n < m" by blast
      then show ?thesis by simp
    qed
  qed
  show ?case
    using notV nottop look hop.hyps(2) hop.hyps(4) pin rec
    by (subst is_in_user_chain.simps)
       (simp add: is_submission_ref_def referenced_comment_def Let_def)
qed

lemma chain_visited_mono:
  "is_in_user_chain auc tlc k V \<Longrightarrow> V' \<subseteq> V \<Longrightarrow> is_in_user_chain auc tlc k V'"
proof (induction auc tlc k V arbitrary: V' rule: is_in_user_chain.induct)
  case (1 auc tlc k V)
  from "1.prems" have notV: "k \<notin> V" "k \<notin> V'"
    by (subst (asm) is_in_user_chain.simps, auto split: if_splits)+
  show ?case
  proof (cases "k \<in> tlc")
    case True
    with notV show ?thesis by (subst is_in_user_chain.simps) simp
  next
    case False
    with notV "1.prems"(1) obtain cd where cd: "map_of auc k = Some cd"
      by (subst (asm) is_in_user_chain.simps) (auto split: option.splits)
    with notV False "1.prems"(1) have nt3: "\<not> startswith (parent_id cd) ''t3_''"
      by (subst (asm) is_in_user_chain.simps) (auto split: if_splits)
    define pc where "pc = (if startswith (parent_id cd) ''t1_'' then drop 3 (parent_id cd) else parent_id cd)"
    from notV False cd nt3 "1.prems"(1)
    have rec: "pc \<in> fst ` set auc" "is_in_user_chain auc tlc pc (insert k V)"
      by (subst (asm) is_in_user_chain.simps, simp add: pc_def Let_def)+
    have "insert k V' \<subseteq> insert k V" using "1.prems"(2) by auto
    from "1.IH"[OF notV(1) False cd nt3 pc_def rec(2) this]
    have "is_in_user_chain auc tlc pc (insert k V')" .
    with notV False cd nt3 rec(1) show ?thesis
      by (subst is_in_user_chain.simps) (simp add: pc_def Let_def)
  qed
qed

lemma t3_not_t1: "startswith s ''t3_'' \<Longrightarrow> \<not> startswith s ''t1_''"
  by (auto simp: startswith_def)

lemma depth_walk_ge: "depth_walk auc x d = Some r \<Longrightarrow> d \<le> r"
proof (induct rule: depth_walk.raw_induct[rotated, consumes 1])
  case (1 walk auc x d r)
  show ?case
  proof (cases "startswith x ''t1_''")
    case False
    with 1(2) show ?thesis by simp
  next
    case True
    show ?thesis
    proof (cases "map_of auc (drop 3 x)")
      case None
      with True 1(2) show ?thesis by (simp add: Let_def)
    next
      case (Some cd)
      with True 1(2) have "walk auc (parent_id cd) (d + 1) = Some r" by (simp add: Let_def)
      from 1(1)[OF this] show ?thesis by simp
    qed
  qed
qed

lemma depth_walk_shift: "depth_walk auc x d = Some r \<Longrightarrow> depth_walk auc x (d + k) = Some (r + k)"
proof (induct rule: depth_walk.raw_induct[rotated, consumes 1])
  case (1 walk auc x d r)
  show ?case
  proof (cases "startswith x ''t1_''")
    case False
    with 1(2) show ?thesis by (subst depth_walk.simps) simp
  next
    case True
    show ?thesis
    proof (cases "map_of auc (drop 3 x)")
      case None
      with True 1(2) show ?thesis by (subst depth_walk.simps) (auto simp add: Let_def)
    next
      case (Some cd)
      with True 1(2) have "walk auc (parent_id cd) (d + 1) = Some r" by (simp add: Let_def)
      from 1(1)[OF this] have "depth_walk auc (parent_id cd) (d + 1 + k) = Some (r + k)" .
      with True Some show ?thesis by (subst depth_walk.simps) (simp add: Let_def add.commute add.left_commute)
    qed
  qed
qed

lemma depth_walk_hops:
  assumes con: "consistent auc tlc"
  shows "hops (map snd auc) c n \<Longrightarrow> \<exists>r. depth_walk auc (parent_id c) d = Some r"
proof (induction arbitrary: d rule: hops.induct)
  case (root c)
  then have "\<not> startswith (parent_id c) ''t1_''"
    by (simp add: is_submission_ref_def t3_not_t1)
  then show ?case by (subst depth_walk.simps) simp
next
  case (hop c p n)
  show ?case
  proof (cases "startswith (parent_id c) ''t1_''")
    case False
    then show ?thesis by (subst depth_walk.simps) simp
  next
    case True
    with hop.hyps(4) have "drop 3 (parent_id c) = id' p" by (simp add: referenced_comment_def)
    moreover from con hop.hyps(3) have "map_of auc (id' p) = Some p" by (rule consistent_lookup)
    moreover from hop.IH obtain r where "depth_walk auc (parent_id p) (d + 1) = Some r" by blast
    ultimately show ?thesis using True by (subst depth_walk.simps) (simp add: Let_def)
  qed
qed

lemma depth_walk_hops_exact:
  assumes con: "consistent auc tlc"
    and wf: "\<forall>c \<in> set (map snd auc). startswith (parent_id c) ''t1_'' \<or> startswith (parent_id c) ''t3_''"
  shows "hops (map snd auc) c n \<Longrightarrow> depth_walk auc (parent_id c) d = Some (d + int n)"
proof (induction arbitrary: d rule: hops.induct)
  case (root c)
  then have "\<not> startswith (parent_id c) ''t1_''"
    by (simp add: is_submission_ref_def t3_not_t1)
  then show ?case by (subst depth_walk.simps) simp
next
  case (hop c p n)
  from wf hop.hyps(1,2) have True: "startswith (parent_id c) ''t1_''"
    by (auto simp: is_submission_ref_def)
  with hop.hyps(4) have "drop 3 (parent_id c) = id' p" by (simp add: referenced_comment_def)
  moreover from con hop.hyps(3) have "map_of auc (id' p) = Some p" by (rule consistent_lookup)
  moreover from hop.IH have "depth_walk auc (parent_id p) (d + 1) = Some (d + 1 + int n)" .
  ultimately show ?case using True by (subst depth_walk.simps) (simp add: Let_def)
qed

lemma second_pass_char:
  "second_pass auc tlc items cbp = Some cbp' \<Longrightarrow>
   \<exists>rs. list_all2 (\<lambda>kc r. assigned auc tlc kc = Some r) (filter (\<lambda>kc. retained auc tlc (fst kc)) items) rs
        \<and> cbp' = grouped rs cbp"
proof (induction items arbitrary: cbp)
  case Nil
  then show ?case by (simp add: grouped_def)
next
  case (Cons kc items)
  obtain k cd where kc: "kc = (k, cd)" by (cases kc)
  show ?case
  proof (cases "retained auc tlc k")
    case False
    with Cons.prems kc have "second_pass auc tlc items cbp = Some cbp'"
      by (simp add: retained_def)
    from Cons.IH[OF this] False kc show ?thesis by simp
  next
    case True
    show ?thesis
    proof (cases "k \<in> tlc")
      case top: True
      with Cons.prems kc
      have "second_pass auc tlc items (append_comment (post_id cd) cd cbp) = Some cbp'" by simp
      from Cons.IH[OF this] obtain rs where
        rs: "list_all2 (\<lambda>kc r. assigned auc tlc kc = Some r) (filter (\<lambda>kc. retained auc tlc (fst kc)) items) rs"
            "cbp' = grouped rs (append_comment (post_id cd) cd cbp)" by blast
      have "assigned auc tlc kc = Some cd" using top kc by (simp add: assigned_def)
      with rs True kc show ?thesis
        by (intro exI[of _ "cd # rs"]) (simp add: grouped_def)
    next
      case nontop: False
      with True Cons.prems kc obtain d where d: "depth_walk auc (parent_id cd) 0 = Some d"
        and sp: "second_pass auc tlc items (append_comment (post_id cd) (cd\<lparr>depth := d\<rparr>) cbp) = Some cbp'"
        by (auto simp: retained_def split: option.splits)
      from Cons.IH[OF sp] obtain rs where
        rs: "list_all2 (\<lambda>kc r. assigned auc tlc kc = Some r) (filter (\<lambda>kc. retained auc tlc (fst kc)) items) rs"
            "cbp' = grouped rs (append_comment (post_id cd) (cd\<lparr>depth := d\<rparr>) cbp)" by blast
      have "assigned auc tlc kc = Some (cd\<lparr>depth := d\<rparr>)" using nontop kc d by (simp add: assigned_def)
      with rs True kc show ?thesis
        by (intro exI[of _ "cd\<lparr>depth := d\<rparr> # rs"]) (simp add: grouped_def)
    qed
  qed
qed

lemma second_pass_total:
  "(\<And>kc. kc \<in> set items \<Longrightarrow> retained auc tlc (fst kc) \<Longrightarrow> assigned auc tlc kc \<noteq> None)
   \<Longrightarrow> \<exists>cbp'. second_pass auc tlc items cbp = Some cbp'"
proof (induction items arbitrary: cbp)
  case Nil
  then show ?case by simp
next
  case (Cons kc items)
  obtain k cd where kc: "kc = (k, cd)" by (cases kc)
  have IH: "\<exists>cbp'. second_pass auc tlc items cbp = Some cbp'" for cbp
    using Cons.IH Cons.prems by simp
  show ?case
  proof (cases "retained auc tlc k \<and> k \<notin> tlc")
    case False
    with IH kc show ?thesis by (auto simp: retained_def)
  next
    case True
    with Cons.prems[of kc] kc obtain d where "depth_walk auc (parent_id cd) 0 = Some d"
      by (auto simp: assigned_def)
    with True IH kc show ?thesis by (auto simp: retained_def)
  qed
qed

lemma map_of_append_comment:
  "map_of (append_comment p r cbp) q =
     (if q = p then Some ((case map_of cbp p of None \<Rightarrow> [] | Some l \<Rightarrow> l) @ [r]) else map_of cbp q)"
  by (simp add: append_comment_def update_conv')

lemma map_of_grouped:
  "map_of (grouped rs cbp) p =
     (case map_of cbp p of
        None \<Rightarrow> (if filter (\<lambda>r. post_id r = p) rs = [] then None
                 else Some (filter (\<lambda>r. post_id r = p) rs))
      | Some l \<Rightarrow> Some (l @ filter (\<lambda>r. post_id r = p) rs))"
proof (induction rs arbitrary: cbp)
  case Nil
  then show ?case by (simp add: grouped_def split: option.splits)
next
  case (Cons r rs)
  have "grouped (r # rs) cbp = grouped rs (append_comment (post_id r) r cbp)"
    by (simp add: grouped_def)
  then show ?case
    by (simp add: Cons.IH map_of_append_comment split: option.splits)
qed

lemma distinct_grouped: "distinct (map fst cbp) \<Longrightarrow> distinct (map fst (grouped rs cbp))"
proof (induction rs arbitrary: cbp)
  case Nil
  then show ?case by (simp add: grouped_def)
next
  case (Cons r rs)
  have "grouped (r # rs) cbp = grouped rs (append_comment (post_id r) r cbp)"
    by (simp add: grouped_def)
  moreover have "distinct (map fst (append_comment (post_id r) r cbp))"
    unfolding append_comment_def using Cons.prems by (rule distinct_update)
  ultimately show ?case using Cons.IH by simp
qed

lemma sort_groups_keys: "map fst (sort_groups cbp) = map fst cbp"
  by (induction cbp) (auto simp: sort_groups_def)

lemma sort_groups_mem:
  "(p, l) \<in> set (sort_groups cbp) \<longleftrightarrow> (\<exists>l0. (p, l0) \<in> set cbp \<and> l = sort_key created_utc l0)"
  by (auto simp: sort_groups_def)

lemma output_groups:
  assumes "get_user_comments_on_posts fmt ps stream = Some out"
  obtains auc tlc rs where
    "first_pass fmt ps stream ([], {}) = (auc, tlc)"
    "list_all2 (\<lambda>kc r. assigned auc tlc kc = Some r) (filter (\<lambda>kc. retained auc tlc (fst kc)) auc) rs"
    "distinct (map fst out)"
    "\<And>p l. (p, l) \<in> set out \<longleftrightarrow>
        filter (\<lambda>r. post_id r = p) rs \<noteq> [] \<and> l = sort_key created_utc (filter (\<lambda>r. post_id r = p) rs)"
proof -
  obtain auc tlc where fp: "first_pass fmt ps stream ([], {}) = (auc, tlc)"
    by (cases "first_pass fmt ps stream ([], {})")
  with assms obtain cbp where sp: "second_pass auc tlc auc [] = Some cbp" and out: "out = sort_groups cbp"
    by (auto simp: get_user_comments_on_posts_def split: option.splits)
  from second_pass_char[OF sp] obtain rs where
    rs: "list_all2 (\<lambda>kc r. assigned auc tlc kc = Some r) (filter (\<lambda>kc. retained auc tlc (fst kc)) auc) rs"
    and cbp: "cbp = grouped rs []" by blast
  have d: "distinct (map fst cbp)" unfolding cbp by (rule distinct_grouped) simp
  then have dout: "distinct (map fst out)" by (simp add: out sort_groups_keys)
  have "(p, l) \<in> set out \<longleftrightarrow>
        filter (\<lambda>r. post_id r = p) rs \<noteq> [] \<and> l = sort_key created_utc (filter (\<lambda>r. post_id r = p) rs)" for p l
  proof -
    have "(p, l) \<in> set out \<longleftrightarrow> (\<exists>l0. map_of cbp p = Some l0 \<and> l = sort_key created_utc l0)"
      using d by (simp add: out sort_groups_mem)
    also have "\<dots> \<longleftrightarrow> filter (\<lambda>r. post_id r = p) rs \<noteq> [] \<and> l = sort_key created_utc (filter (\<lambda>r. post_id r = p) rs)"
      by (auto simp: cbp map_of_grouped)
    finally show ?thesis .
  qed
  with fp rs dout show ?thesis by (rule that)
qed

lemma on_target_eq: "on_target ps = (\<lambda>c. c_submission_id c \<in> set ps)"
  by (auto simp: on_target_def)

lemma first_pass_distinct_ids:
  assumes d: "distinct (map c_id stream)"
    and fp: "first_pass fmt ps stream ([], {}) = (auc, tlc)"
  shows "auc = map (\<lambda>c. (c_id c, comment_data_of fmt c)) (filter (on_target ps) stream)"
    and "map snd auc = target_comments fmt ps stream"
    and "consistent auc tlc"
proof -
  from d have d': "distinct (map c_id (filter (on_target ps) stream))"
    by (rule distinct_map_filter)
  from first_pass_closed_form[OF d', of "[]" fmt "{}"] fp
  have auc: "auc = map (\<lambda>c. (c_id c, comment_data_of fmt c)) (filter (on_target ps) stream)"
    and tlc: "tlc = c_id ` {c \<in> set stream. on_target ps c \<and> startswith (c_parent_id c) ''t3_''}"
    by simp_all
  show "auc = map (\<lambda>c. (c_id c, comment_data_of fmt c)) (filter (on_target ps) stream)" by fact
  show "map snd auc = target_comments fmt ps stream"
    by (simp add: auc target_comments_def on_target_eq comp_def)
  have keys: "map fst auc = map c_id (filter (on_target ps) stream)"
    by (simp add: auc comp_def)
  have dk: "distinct (map fst auc)" using d' by (simp add: keys)
  have ids: "\<forall>(k, cd) \<in> set auc. id' cd = k"
    by (auto simp: auc comment_data_of_def)
  have "tlc = {k. \<exists>cd. map_of auc k = Some cd \<and> startswith (parent_id cd) ''t3_''}"
  proof (rule set_eqI)
    fix k
    have "(\<exists>cd. map_of auc k = Some cd \<and> startswith (parent_id cd) ''t3_'')
          \<longleftrightarrow> (\<exists>cd. (k, cd) \<in> set auc \<and> startswith (parent_id cd) ''t3_'')"
      using dk by simp
    also have "\<dots> \<longleftrightarrow> (\<exists>c \<in> set stream. on_target ps c \<and> k = c_id c \<and> startswith (c_parent_id c) ''t3_'')"
      by (auto simp: auc comment_data_of_def)
    also have "\<dots> \<longleftrightarrow> k \<in> tlc" by (auto simp: tlc)
    finally show "k \<in> tlc \<longleftrightarrow> k \<in> {k. \<exists>cd. map_of auc k = Some cd \<and> startswith (parent_id cd) ''t3_''}"
      by simp
  qed
  with dk ids show "consistent auc tlc" by (simp add: consistent_def)
qed

lemma first_pass_ids:
  assumes "first_pass fmt ps stream ([], {}) = (auc, tlc)" "(k, cd) \<in> set auc"
  shows "id' cd = k"
  using first_pass_origin[OF assms] by (auto simp: comment_data_of_def)

lemma assigned_shape:
  "assigned auc tlc kc = Some r \<Longrightarrow> r = (snd kc)\<lparr>depth := depth r\<rparr>"
  by (auto simp: assigned_def split: if_splits)

lemma assigned_id: "assigned auc tlc kc = Some r \<Longrightarrow> id' r = id' (snd kc)"
  by (auto simp: assigned_def split: if_splits)

lemma list_all2_right:
  "list_all2 P xs ys \<Longrightarrow> y \<in> set ys \<Longrightarrow> \<exists>x \<in> set xs. P x y"
  by (induction rule: list_all2_induct) auto

lemma list_all2_left:
  "list_all2 P xs ys \<Longrightarrow> x \<in> set xs \<Longrightarrow> \<exists>y \<in> set ys. P x y"
  by (induction rule: list_all2_induct) auto

lemma list_all2_map_eq:
  "list_all2 P xs ys \<Longrightarrow> (\<And>x y. x \<in> set xs \<Longrightarrow> P x y \<Longrightarrow> g y = f x) \<Longrightarrow> map g ys = map f xs"
  by (induction rule: list_all2_induct) auto

lemma set_output_comments:
  assumes "\<And>p l. (p, l) \<in> set out \<longleftrightarrow>
        filter (\<lambda>r. post_id r = p) rs \<noteq> [] \<and> l = sort_key created_utc (filter (\<lambda>r. post_id r = p) rs)"
  shows "set (output_comments out) = set rs"
proof
  show "set (output_comments out) \<subseteq> set rs"
  proof
    fix r assume "r \<in> set (output_comments out)"
    then obtain p l where "(p, l) \<in> set out" "r \<in> set l"
      by (auto simp: output_comments_def)
    with assms show "r \<in> set rs" by auto
  qed
next
  show "set rs \<subseteq> set (output_comments out)"
  proof
    fix r assume r: "r \<in> set rs"
    let ?l = "filter (\<lambda>x. post_id x = post_id r) rs"
    from r have rl: "r \<in> set ?l" by simp
    then have "?l \<noteq> []" by (metis empty_iff empty_set)
    with assms have "(post_id r, sort_key created_utc ?l) \<in> set out" by simp
    moreover from rl have "r \<in> set (sort_key created_utc ?l)" by simp
    ultimately show "r \<in> set (output_comments out)"
      unfolding output_comments_def by force
  qed
qed

text \<open>What the result holds, in one statement.\<close>

lemma output_shape:
  assumes "get_user_comments_on_posts fmt ps stream = Some out"
  obtains auc tlc rs where
    "first_pass fmt ps stream ([], {}) = (auc, tlc)"
    "list_all2 (\<lambda>kc r. assigned auc tlc kc = Some r) (filter (\<lambda>kc. retained auc tlc (fst kc)) auc) rs"
    "distinct (map fst out)"
    "\<And>p l. (p, l) \<in> set out \<longleftrightarrow>
        filter (\<lambda>r. post_id r = p) rs \<noteq> [] \<and> l = sort_key created_utc (filter (\<lambda>r. post_id r = p) rs)"
    "set (output_comments out) = set rs"
    "map id' rs = map fst (filter (\<lambda>kc. retained auc tlc (fst kc)) auc)"
proof -
  from output_groups[OF assms] obtain auc tlc rs where
    fp: "first_pass fmt ps stream ([], {}) = (auc, tlc)"
    and la: "list_all2 (\<lambda>kc r. assigned auc tlc kc = Some r) (filter (\<lambda>kc. retained auc tlc (fst kc)) auc) rs"
    and d: "distinct (map fst out)"
    and g: "\<And>p l. (p, l) \<in> set out \<longleftrightarrow>
        filter (\<lambda>r. post_id r = p) rs \<noteq> [] \<and> l = sort_key created_utc (filter (\<lambda>r. post_id r = p) rs)"
    by blast
  have s: "set (output_comments out) = set rs" using g by (rule set_output_comments)
  have "map id' rs = map fst (filter (\<lambda>kc. retained auc tlc (fst kc)) auc)"
  proof (rule list_all2_map_eq[OF la])
    fix kc r assume "kc \<in> set (filter (\<lambda>kc. retained auc tlc (fst kc)) auc)"
      and a: "assigned auc tlc kc = Some r"
    then have "(fst kc, snd kc) \<in> set auc" by simp
    from first_pass_ids[OF fp this] assigned_id[OF a] show "id' r = fst kc" by simp
  qed
  with fp la d g s show ?thesis by (rule that)
qed

lemma retained_iff_chain:
  assumes con: "consistent auc tlc" and kc: "(k, cd) \<in> set auc"
  shows "retained auc tlc k \<longleftrightarrow> user_chain (map snd auc) cd"
proof -
  from con kc have idk: "id' cd = k" by (auto simp: consistent_def)
  from kc have cdin: "cd \<in> set (map snd auc)" by force
  from consistent_lookup[OF con cdin] idk have look: "map_of auc k = Some cd"
    by simp
  show ?thesis
  proof
    assume "retained auc tlc k"
    then show "user_chain (map snd auc) cd"
      unfolding retained_def
    proof
      assume "k \<in> tlc"
      with consistent_top[OF con look] have "is_submission_ref (parent_id cd)"
        by (simp add: is_submission_ref_def)
      with cdin show ?thesis by (rule user_chain.top_level)
    next
      assume "is_in_user_chain auc tlc k {}"
      from chain_sound[OF this con] look have "\<exists>n. hops (map snd auc) cd n" by auto
      then show ?thesis by (simp add: user_chain_hops)
    qed
  next
    assume "user_chain (map snd auc) cd"
    then obtain n where "hops (map snd auc) cd n" by (auto simp: user_chain_hops)
    from chain_complete[OF con this, of "{}"] idk show "retained auc tlc k"
      by (simp add: retained_def)
  qed
qed

lemma output_ids:
  assumes "get_user_comments_on_posts fmt ps stream = Some out"
    and "first_pass fmt ps stream ([], {}) = (auc, tlc)"
  shows "id' ` set (output_comments out) = {k \<in> fst ` set auc. retained auc tlc k}"
proof -
  show ?thesis
  proof (rule output_shape[OF assms(1)])
    fix auc' tlc' rs
    assume fp: "first_pass fmt ps stream ([], {}) = (auc', tlc')"
      and s: "set (output_comments out) = set rs"
      and ids: "map id' rs = map fst (filter (\<lambda>kc. retained auc' tlc' (fst kc)) auc')"
    from fp assms(2) have eq: "auc' = auc" "tlc' = tlc" by simp_all
    have "id' ` set (output_comments out) = id' ` set rs" by (simp only: s)
    also have "\<dots> = set (map id' rs)" by simp
    also have "\<dots> = set (map fst (filter (\<lambda>kc. retained auc tlc (fst kc)) auc))"
      by (simp only: ids eq)
    also have "\<dots> = {k \<in> fst ` set auc. retained auc tlc k}"
      by auto
    finally show ?thesis .
  qed
qed

lemma total_distinct:
  assumes d: "distinct (map c_id stream)"
  shows "\<exists>out. get_user_comments_on_posts fmt ps stream = Some out"
proof -
  obtain auc tlc where fp: "first_pass fmt ps stream ([], {}) = (auc, tlc)"
    by (cases "first_pass fmt ps stream ([], {})")
  from first_pass_distinct_ids(3)[OF d fp] have con: "consistent auc tlc" .
  have "\<exists>cbp. second_pass auc tlc auc [] = Some cbp"
  proof (rule second_pass_total)
    fix kc assume kc: "kc \<in> set auc" and ret: "retained auc tlc (fst kc)"
    show "assigned auc tlc kc \<noteq> None"
    proof (cases "fst kc \<in> tlc")
      case True
      then show ?thesis by (simp add: assigned_def)
    next
      case False
      with ret have "is_in_user_chain auc tlc (fst kc) {}" by (simp add: retained_def)
      from chain_sound[OF this con] obtain cd n where
        cd: "map_of auc (fst kc) = Some cd" "hops (map snd auc) cd n" by blast
      from con have "distinct (map fst auc)" by (simp add: consistent_def)
      moreover from kc have "(fst kc, snd kc) \<in> set auc" by simp
      ultimately have "map_of auc (fst kc) = Some (snd kc)" by (rule map_of_is_SomeI)
      with cd(1) have "cd = snd kc" by simp
      with depth_walk_hops[OF con cd(2), of 0] False show ?thesis
        by (auto simp: assigned_def)
    qed
  qed
  with fp show ?thesis by (auto simp: get_user_comments_on_posts_def)
qed

lemma key_on_target:
  assumes d: "distinct (map c_id stream)"
    and fp: "first_pass fmt ps stream ([], {}) = (auc, tlc)"
    and c: "c \<in> set stream"
  shows "c_id c \<in> fst ` set auc \<longleftrightarrow> c_submission_id c \<in> set ps"
    and "c_submission_id c \<in> set ps \<Longrightarrow> (c_id c, comment_data_of fmt c) \<in> set auc"
proof -
  note auc = first_pass_distinct_ids(1)[OF d fp]
  show t: "c_submission_id c \<in> set ps \<Longrightarrow> (c_id c, comment_data_of fmt c) \<in> set auc"
    using c by (auto simp: auc on_target_def)
  show "c_id c \<in> fst ` set auc \<longleftrightarrow> c_submission_id c \<in> set ps"
  proof
    assume "c_id c \<in> fst ` set auc"
    then obtain c' where c': "c' \<in> set stream" "on_target ps c'" "c_id c' = c_id c"
      by (auto simp: auc)
    from d c c'(1,3) have "c' = c" by (meson distinct_map inj_onD)
    with c'(2) show "c_submission_id c \<in> set ps" by (simp add: on_target_def)
  next
    assume "c_submission_id c \<in> set ps"
    from t[OF this] show "c_id c \<in> fst ` set auc" by force
  qed
qed

lemma output_record_origin:
  assumes out: "get_user_comments_on_posts fmt ps stream = Some out"
    and r: "r \<in> set (output_comments out)"
  shows "\<exists>c \<in> set stream. c_submission_id c \<in> set ps \<and>
           r = (comment_data_of fmt c)\<lparr>depth := depth r\<rparr>"
proof (rule output_shape[OF out])
  fix auc tlc rs
  assume fp: "first_pass fmt ps stream ([], {}) = (auc, tlc)"
    and la: "list_all2 (\<lambda>kc r. assigned auc tlc kc = Some r)
               (filter (\<lambda>kc. retained auc tlc (fst kc)) auc) rs"
    and s: "set (output_comments out) = set rs"
  from r s have "r \<in> set rs" by simp
  from list_all2_right[OF la this] obtain kc where
    kc: "kc \<in> set auc" "assigned auc tlc kc = Some r" by auto
  from kc(1) have "(fst kc, snd kc) \<in> set auc" by simp
  from first_pass_origin[OF fp this] obtain c where
    c: "c \<in> set stream" "c_submission_id c \<in> set ps" "snd kc = comment_data_of fmt c"
    by auto
  from assigned_shape[OF kc(2)] c(3) have "r = (comment_data_of fmt c)\<lparr>depth := depth r\<rparr>"
    by simp
  with c(1,2) show ?thesis by blast
qed

lemma output_group_member:
  assumes out: "get_user_comments_on_posts fmt ps stream = Some out"
    and g: "(p, l) \<in> set out" and r: "r \<in> set l"
  shows "r \<in> set (output_comments out)" and "post_id r = p"
proof -
  from g r show "r \<in> set (output_comments out)"
    unfolding output_comments_def by force
  show "post_id r = p"
  proof (rule output_shape[OF out])
    fix rs :: "comment_data list"
    assume "\<And>p l. (p, l) \<in> set out \<longleftrightarrow>
        filter (\<lambda>r. post_id r = p) rs \<noteq> [] \<and> l = sort_key created_utc (filter (\<lambda>r. post_id r = p) rs)"
    with g have "l = sort_key created_utc (filter (\<lambda>r. post_id r = p) rs)" by simp
    with r show ?thesis by simp
  qed
qed

lemma output_ids_distinct:
  assumes out: "get_user_comments_on_posts fmt ps stream = Some out"
  shows "distinct (map id' (output_comments out))"
proof (rule output_shape[OF out])
  fix auc tlc rs
  assume fp: "first_pass fmt ps stream ([], {}) = (auc, tlc)"
    and d: "distinct (map fst out)"
    and g: "\<And>p l. (p, l) \<in> set out \<longleftrightarrow>
        filter (\<lambda>r. post_id r = p) rs \<noteq> [] \<and> l = sort_key created_utc (filter (\<lambda>r. post_id r = p) rs)"
    and ids: "map id' rs = map fst (filter (\<lambda>kc. retained auc tlc (fst kc)) auc)"
  from first_pass_keys_distinct[OF fp] have "distinct (map fst auc)" by simp
  then have "distinct (map fst (filter (\<lambda>kc. retained auc tlc (fst kc)) auc))"
    by (rule distinct_map_filter)
  with ids have drs: "distinct (map id' rs)" by simp
  then have inj: "inj_on id' (set rs)" and dr: "distinct rs"
    by (simp_all add: distinct_map)
  have "distinct (map fst al) \<Longrightarrow> set al \<subseteq> set out \<Longrightarrow> distinct (map id' (concat (map snd al)))" for al
  proof (induction al)
    case Nil
    then show ?case by simp
  next
    case (Cons pl al)
    obtain p l where pl: "pl = (p, l)" by (cases pl)
    from Cons.prems pl have "(p, l) \<in> set out" by simp
    with g have l: "l = sort_key created_utc (filter (\<lambda>r. post_id r = p) rs)" by simp
    have sl: "set l \<subseteq> set rs" and pl_post: "\<forall>r \<in> set l. post_id r = p" by (auto simp: l)
    have "distinct l" using dr by (simp add: l)
    moreover have "inj_on id' (set l)" using inj sl by (rule inj_on_subset)
    ultimately have d1: "distinct (map id' l)" by (simp add: distinct_map)
    from Cons have d2: "distinct (map id' (concat (map snd al)))" by simp
    have "id' x \<noteq> id' y" if x: "x \<in> set l" and y: "y \<in> set (concat (map snd al))" for x y
    proof
      assume e: "id' x = id' y"
      from y obtain p' l' where p': "(p', l') \<in> set al" "y \<in> set l'" by auto
      with Cons.prems have "(p', l') \<in> set out" by auto
      with g have l': "l' = sort_key created_utc (filter (\<lambda>r. post_id r = p') rs)" by simp
      with p'(2) have y': "y \<in> set rs" "post_id y = p'" by simp_all
      from x sl have "x \<in> set rs" by auto
      with inj y'(1) e have "x = y" by (meson inj_onD)
      with x pl_post y'(2) have "p = p'" by auto
      moreover from Cons.prems(1) pl p'(1) have "p \<noteq> p'" by force
      ultimately show False by simp
    qed
    then have "set (map id' l) \<inter> set (map id' (concat (map snd al))) = {}" by auto
    with d1 d2 show ?case by (simp add: pl)
  qed
  from this[OF d] show ?thesis by (simp add: output_comments_def)
qed

lemma output_group_order:
  assumes out: "get_user_comments_on_posts fmt ps stream = Some out"
    and g: "(p, l) \<in> set out"
  shows "sorted (map created_utc l)"
    and "subseq (map id' (filter (\<lambda>r. created_utc r = t) l)) (map c_id stream)"
proof -
  show "sorted (map created_utc l)"
  proof (rule output_shape[OF out])
    fix rs :: "comment_data list"
    assume "\<And>p l. (p, l) \<in> set out \<longleftrightarrow>
        filter (\<lambda>r. post_id r = p) rs \<noteq> [] \<and> l = sort_key created_utc (filter (\<lambda>r. post_id r = p) rs)"
    with g have "l = sort_key created_utc (filter (\<lambda>r. post_id r = p) rs)" by simp
    then show ?thesis by simp
  qed
  show "subseq (map id' (filter (\<lambda>r. created_utc r = t) l)) (map c_id stream)"
  proof (rule output_shape[OF out])
    fix auc tlc rs
    assume fp: "first_pass fmt ps stream ([], {}) = (auc, tlc)"
      and gg: "\<And>p l. (p, l) \<in> set out \<longleftrightarrow>
        filter (\<lambda>r. post_id r = p) rs \<noteq> [] \<and> l = sort_key created_utc (filter (\<lambda>r. post_id r = p) rs)"
      and ids: "map id' rs = map fst (filter (\<lambda>kc. retained auc tlc (fst kc)) auc)"
    from g gg have l: "l = sort_key created_utc (filter (\<lambda>r. post_id r = p) rs)" by simp
    have "filter (\<lambda>r. created_utc r = t) l
            = filter (\<lambda>r. created_utc r = t) (filter (\<lambda>r. post_id r = p) rs)"
      unfolding l by (rule sort_key_stable)
    also have "\<dots> = filter (\<lambda>r. post_id r = p \<and> created_utc r = t) rs" by simp
    finally have "subseq (filter (\<lambda>r. created_utc r = t) l) rs" by simp
    then have "subseq (map id' (filter (\<lambda>r. created_utc r = t) l)) (map id' rs)"
      by (rule subseq_map)
    also have "subseq (map id' rs) (map fst auc)"
      unfolding ids by (rule subseq_map) simp
    also from first_pass_subseq[OF fp] have "subseq (map fst auc) (map c_id stream)" by simp
    finally show ?thesis .
  qed
qed

lemma first_pass_set_cong:
  "set ps = set ps' \<Longrightarrow> first_pass fmt ps stream acc = first_pass fmt ps' stream acc"
proof (induction stream arbitrary: acc)
  case Nil
  then show ?case by (cases acc) simp
next
  case (Cons c stream)
  then show ?case by (cases acc) simp
qed

lemma output_group_nonempty:
  assumes out: "get_user_comments_on_posts fmt ps stream = Some out"
    and g: "(p, l) \<in> set out"
  shows "l \<noteq> []"
proof (rule output_shape[OF out])
  fix rs :: "comment_data list"
  assume "\<And>p l. (p, l) \<in> set out \<longleftrightarrow>
      filter (\<lambda>r. post_id r = p) rs \<noteq> [] \<and> l = sort_key created_utc (filter (\<lambda>r. post_id r = p) rs)"
  with g have "filter (\<lambda>r. post_id r = p) rs \<noteq> []"
    and "l = sort_key created_utc (filter (\<lambda>r. post_id r = p) rs)" by simp_all
  then show ?thesis by (metis length_0_conv length_sort)
qed

lemma output_keys_distinct:
  assumes out: "get_user_comments_on_posts fmt ps stream = Some out"
  shows "distinct (map fst out)"
  by (rule output_shape[OF out])

lemma example_run:
  "get_user_comments_on_posts example_isoformat [''p1''] example_stream = Some example_output"
  by code_simp

lemma example_group_in: "(''p1'', example_group) \<in> set example_output"
  by (simp add: example_output_def)

lemma example_c2_in: "example_data ''c2'' ''t1_c1'' ''p1'' 20 1 \<in> set example_group"
  by (simp add: example_group_def)

lemma example_c2_out: "example_data ''c2'' ''t1_c1'' ''p1'' 20 1 \<in> set (output_comments example_output)"
  by (simp add: example_group_def example_output_def output_comments_def)

text \<open>
  Claim C4. Each list of the result is sorted by \<^verbatim>\<open>created_utc\<close>, non-decreasing, and the
  comments of one list that have the same creation time stand in the order in which the stream
  delivered them: their ids form a subsequence of the ids of the stream.
\<close>

theorem C4_sorted_stable:
  assumes "get_user_comments_on_posts isoformat post_ids stream = Some out"
    and "(p, l) \<in> set out"
  shows "sorted (map created_utc l) \<and>
         (\<forall>t. subseq (map id' (filter (\<lambda>r. created_utc r = t) l)) (map c_id stream))"
  using output_group_order[OF assms] by blast

theorem C4_sorted_stable_witness:
  "get_user_comments_on_posts example_isoformat [''p1''] example_stream = Some example_output \<and>
   (''p1'', example_group) \<in> set example_output \<and>
   sorted (map created_utc example_group) \<and>
   (\<forall>t. subseq (map id' (filter (\<lambda>r. created_utc r = t) example_group))
          (map c_id example_stream))"
proof -
  note t = C4_sorted_stable[OF example_run example_group_in]
  from example_group_in t have
    "(''p1'', example_group) \<in> set example_output \<and>
     sorted (map created_utc example_group) \<and>
     (\<forall>t. subseq (map id' (filter (\<lambda>r. created_utc r = t) example_group))
            (map c_id example_stream))"
    by (rule conjI)
  with example_run show ?thesis by (rule conjI)
qed

text \<open>
  Claim C5. Every key of the result is one of \<^verbatim>\<open>post_ids\<close>, and every comment listed
  under a key has that key as its \<^verbatim>\<open>post_id\<close>: a comment of the stream on another post is
  dropped by the test of line 113.
\<close>

theorem C5_only_target_posts:
  assumes "get_user_comments_on_posts isoformat post_ids stream = Some out"
    and "(p, l) \<in> set out" and "r \<in> set l"
  shows "p \<in> set post_ids \<and> post_id r = p"
proof -
  note m = output_group_member[OF assms]
  from output_record_origin[OF assms(1) m(1)] obtain c where
    c: "c_submission_id c \<in> set post_ids"
       "r = (comment_data_of isoformat c)\<lparr>depth := depth r\<rparr>"
    by blast
  from c(2) have "post_id r = post_id ((comment_data_of isoformat c)\<lparr>depth := depth r\<rparr>)"
    by (rule arg_cong)
  with c(1) have "post_id r \<in> set post_ids" by (simp add: comment_data_of_def)
  with m(2) show ?thesis by simp
qed

theorem C5_only_target_posts_witness:
  "get_user_comments_on_posts example_isoformat [''p1''] example_stream = Some example_output \<and>
   (''p1'', example_group) \<in> set example_output \<and>
   example_data ''c2'' ''t1_c1'' ''p1'' 20 1 \<in> set example_group \<and>
   ''p1'' \<in> set [''p1''] \<and> post_id (example_data ''c2'' ''t1_c1'' ''p1'' 20 1) = ''p1''"
proof -
  note t = C5_only_target_posts[OF example_run example_group_in example_c2_in]
  from example_c2_in t have
    "example_data ''c2'' ''t1_c1'' ''p1'' 20 1 \<in> set example_group \<and>
     ''p1'' \<in> set [''p1''] \<and> post_id (example_data ''c2'' ''t1_c1'' ''p1'' 20 1) = ''p1''"
    by (rule conjI)
  with example_group_in have
    "(''p1'', example_group) \<in> set example_output \<and>
     example_data ''c2'' ''t1_c1'' ''p1'' 20 1 \<in> set example_group \<and>
     ''p1'' \<in> set [''p1''] \<and> post_id (example_data ''c2'' ''t1_c1'' ''p1'' 20 1) = ''p1''"
    by (rule conjI)
  with example_run show ?thesis by (rule conjI)
qed

text \<open>
  Claim C7. The result is a function of the stream and of the set of the target post ids: two
  runs on the same stream whose lists \<^verbatim>\<open>post_ids\<close> hold the same ids, in any order and with
  any repetition, return the same result. Each run starts from empty collections (lines 103 to
  107) and each outer call of \<^verbatim>\<open>is_in_user_chain\<close> from an empty \<^verbatim>\<open>visited\<close>, so
  nothing of one run reaches the next.
\<close>

theorem C7_same_input_same_output:
  assumes "set post_ids = set post_ids'"
  shows "get_user_comments_on_posts isoformat post_ids stream =
         get_user_comments_on_posts isoformat post_ids' stream"
  unfolding get_user_comments_on_posts_def first_pass_set_cong[OF assms] ..

theorem C7_same_input_same_output_witness:
  "set [''p1'', ''p2''] = set [''p2'', ''p1'', ''p2''] \<and>
   get_user_comments_on_posts example_isoformat [''p1'', ''p2''] example_stream =
   get_user_comments_on_posts example_isoformat [''p2'', ''p1'', ''p2''] example_stream"
proof -
  have h: "set [''p1'', ''p2''] = set [''p2'', ''p1'', ''p2'']" by auto
  from C7_same_input_same_output[OF h] h show ?thesis by blast
qed

text \<open>
  Claim C8. Every comment of the result is one of the records the first pass built for the
  comments of the stream on the target posts (lines 114 to 125), with the field
  \<^verbatim>\<open>depth\<close> possibly changed and every other field as it was built.
\<close>

theorem C8_only_depth_assigned:
  assumes "get_user_comments_on_posts isoformat post_ids stream = Some out"
    and "r \<in> set (output_comments out)"
  shows "\<exists>cd \<in> set (target_comments isoformat post_ids stream). r = cd\<lparr>depth := depth r\<rparr>"
proof -
  from output_record_origin[OF assms] obtain c where
    c: "c \<in> set stream" "c_submission_id c \<in> set post_ids"
       "r = (comment_data_of isoformat c)\<lparr>depth := depth r\<rparr>"
    by blast
  from c(1,2) have "comment_data_of isoformat c \<in> set (target_comments isoformat post_ids stream)"
    by (simp add: target_comments_def)
  with c(3) show ?thesis by blast
qed

theorem C8_only_depth_assigned_witness:
  "get_user_comments_on_posts example_isoformat [''p1''] example_stream = Some example_output \<and>
   example_data ''c2'' ''t1_c1'' ''p1'' 20 1 \<in> set (output_comments example_output) \<and>
   (\<exists>cd \<in> set (target_comments example_isoformat [''p1''] example_stream).
      example_data ''c2'' ''t1_c1'' ''p1'' 20 1
        = cd\<lparr>depth := depth (example_data ''c2'' ''t1_c1'' ''p1'' 20 1)\<rparr>)"
proof -
  note t = C8_only_depth_assigned[OF example_run example_c2_out]
  from example_c2_out t have
    "example_data ''c2'' ''t1_c1'' ''p1'' 20 1 \<in> set (output_comments example_output) \<and>
     (\<exists>cd \<in> set (target_comments example_isoformat [''p1''] example_stream).
        example_data ''c2'' ''t1_c1'' ''p1'' 20 1
          = cd\<lparr>depth := depth (example_data ''c2'' ''t1_c1'' ''p1'' 20 1)\<rparr>)"
    by (rule conjI)
  with example_run show ?thesis by (rule conjI)
qed

text \<open>
  Claim C10. The keys of the result are pairwise different, no key has an empty list, and no
  comment id occurs twice in the whole result.
\<close>

theorem C10_output_shape:
  assumes "get_user_comments_on_posts isoformat post_ids stream = Some out"
  shows "distinct (map fst out) \<and> (\<forall>(p, l) \<in> set out. l \<noteq> []) \<and>
         distinct (map id' (output_comments out))"
  using output_keys_distinct[OF assms] output_group_nonempty[OF assms]
    output_ids_distinct[OF assms]
  by blast

theorem C10_output_shape_witness:
  "get_user_comments_on_posts example_isoformat [''p1''] example_stream = Some example_output \<and>
   distinct (map fst example_output) \<and> example_group \<noteq> [] \<and>
   distinct (map id' (output_comments example_output))"
proof -
  note t = C10_output_shape[OF example_run]
  from t have "\<forall>(p, l) \<in> set example_output. l \<noteq> []" by (elim conjE)
  with example_group_in have "example_group \<noteq> []" by fastforce
  with t example_run show ?thesis by (elim conjE) (intro conjI)
qed

lemma example_distinct: "distinct (map c_id example_stream)"
  by (simp add: example_stream_def example_comment_def)

lemma example_c2_stream: "example_comment ''c2'' ''t1_c1'' ''p1'' 20 \<in> set example_stream"
  by (simp add: example_stream_def)

lemma example_c4_stream: "example_comment ''c4'' ''t3_p2'' ''p2'' 5 \<in> set example_stream"
  by (simp add: example_stream_def)

lemma example_c3_stream: "example_comment ''c3'' ''t1_zz'' ''p1'' 30 \<in> set example_stream"
  by (simp add: example_stream_def)

lemma example_output_ids: "id' ` set (output_comments example_output) = {''c1'', ''c5'', ''c2''}"
  by (simp add: output_comments_def example_output_def example_group_def example_data_def
      comment_data_of_def example_comment_def)

text \<open>
  Claim C1, as the code has it. For a stream whose comment ids are pairwise different, a comment
  of the stream is in the result if and only if it is on one of the target posts and belongs to
  a user chain of the collection of the stream's comments on the target posts: its parent is a
  submission, or its parent is a comment of that collection that belongs to a user chain. The
  claim without the restriction to the target posts fails: see \<open>C1_counterexample\<close>.
\<close>

theorem C1_selection:
  assumes d: "distinct (map c_id stream)"
    and out: "get_user_comments_on_posts isoformat post_ids stream = Some out"
    and c: "c \<in> set stream"
  shows "c_id c \<in> id' ` set (output_comments out) \<longleftrightarrow>
           c_submission_id c \<in> set post_ids \<and>
           user_chain (target_comments isoformat post_ids stream) (comment_data_of isoformat c)"
proof -
  obtain auc tlc where fp: "first_pass isoformat post_ids stream ([], {}) = (auc, tlc)"
    by (cases "first_pass isoformat post_ids stream ([], {})")
  note con = first_pass_distinct_ids(3)[OF d fp]
  note tc = first_pass_distinct_ids(2)[OF d fp]
  have "c_id c \<in> id' ` set (output_comments out) \<longleftrightarrow>
          c_id c \<in> fst ` set auc \<and> retained auc tlc (c_id c)"
    unfolding output_ids[OF out fp] by simp
  also have "\<dots> \<longleftrightarrow> c_submission_id c \<in> set post_ids \<and> retained auc tlc (c_id c)"
    by (simp add: key_on_target(1)[OF d fp c])
  also have "\<dots> \<longleftrightarrow> c_submission_id c \<in> set post_ids \<and>
           user_chain (target_comments isoformat post_ids stream) (comment_data_of isoformat c)"
    using retained_iff_chain[OF con key_on_target(2)[OF d fp c]] by (auto simp: tc)
  finally show ?thesis .
qed

theorem C1_selection_witness:
  "distinct (map c_id example_stream) \<and>
   get_user_comments_on_posts example_isoformat [''p1''] example_stream = Some example_output \<and>
   example_comment ''c2'' ''t1_c1'' ''p1'' 20 \<in> set example_stream \<and>
   c_id (example_comment ''c2'' ''t1_c1'' ''p1'' 20) \<in> id' ` set (output_comments example_output) \<and>
   c_submission_id (example_comment ''c2'' ''t1_c1'' ''p1'' 20) \<in> set [''p1''] \<and>
   user_chain (target_comments example_isoformat [''p1''] example_stream)
     (comment_data_of example_isoformat (example_comment ''c2'' ''t1_c1'' ''p1'' 20))"
proof -
  note t = C1_selection[OF example_distinct example_run example_c2_stream]
  have m: "c_id (example_comment ''c2'' ''t1_c1'' ''p1'' 20) \<in> id' ` set (output_comments example_output)"
    unfolding example_output_ids by (simp add: example_comment_def)
  with t have
    "c_submission_id (example_comment ''c2'' ''t1_c1'' ''p1'' 20) \<in> set [''p1''] \<and>
     user_chain (target_comments example_isoformat [''p1''] example_stream)
       (comment_data_of example_isoformat (example_comment ''c2'' ''t1_c1'' ''p1'' 20))"
    by (rule iffD1)
  with m have
    "c_id (example_comment ''c2'' ''t1_c1'' ''p1'' 20) \<in> id' ` set (output_comments example_output) \<and>
     c_submission_id (example_comment ''c2'' ''t1_c1'' ''p1'' 20) \<in> set [''p1''] \<and>
     user_chain (target_comments example_isoformat [''p1''] example_stream)
       (comment_data_of example_isoformat (example_comment ''c2'' ''t1_c1'' ''p1'' 20))"
    by (rule conjI)
  with example_c2_stream have
    "example_comment ''c2'' ''t1_c1'' ''p1'' 20 \<in> set example_stream \<and>
     c_id (example_comment ''c2'' ''t1_c1'' ''p1'' 20) \<in> id' ` set (output_comments example_output) \<and>
     c_submission_id (example_comment ''c2'' ''t1_c1'' ''p1'' 20) \<in> set [''p1''] \<and>
     user_chain (target_comments example_isoformat [''p1''] example_stream)
       (comment_data_of example_isoformat (example_comment ''c2'' ''t1_c1'' ''p1'' 20))"
    by (rule conjI)
  with example_run have
    "get_user_comments_on_posts example_isoformat [''p1''] example_stream = Some example_output \<and>
     example_comment ''c2'' ''t1_c1'' ''p1'' 20 \<in> set example_stream \<and>
     c_id (example_comment ''c2'' ''t1_c1'' ''p1'' 20) \<in> id' ` set (output_comments example_output) \<and>
     c_submission_id (example_comment ''c2'' ''t1_c1'' ''p1'' 20) \<in> set [''p1''] \<and>
     user_chain (target_comments example_isoformat [''p1''] example_stream)
       (comment_data_of example_isoformat (example_comment ''c2'' ''t1_c1'' ''p1'' 20))"
    by (rule conjI)
  with example_distinct show ?thesis by (rule conjI)
qed

text \<open>
  The comment \<open>c4\<close> of the example stream is top-level, so it belongs to a user chain of the
  whole stream, and it is not in the result for the target post \<open>p1\<close>, being on the post
  \<open>p2\<close>.
\<close>

theorem C1_counterexample:
  "example_comment ''c4'' ''t3_p2'' ''p2'' 5 \<in> set example_stream \<and>
   is_submission_ref (c_parent_id (example_comment ''c4'' ''t3_p2'' ''p2'' 5)) \<and>
   user_chain (map (comment_data_of example_isoformat) example_stream)
     (comment_data_of example_isoformat (example_comment ''c4'' ''t3_p2'' ''p2'' 5)) \<and>
   get_user_comments_on_posts example_isoformat [''p1''] example_stream = Some example_output \<and>
   c_id (example_comment ''c4'' ''t3_p2'' ''p2'' 5) \<notin> id' ` set (output_comments example_output)"
proof -
  have s: "is_submission_ref (c_parent_id (example_comment ''c4'' ''t3_p2'' ''p2'' 5))"
    by (simp add: is_submission_ref_def startswith_def example_comment_def)
  have "user_chain (map (comment_data_of example_isoformat) example_stream)
     (comment_data_of example_isoformat (example_comment ''c4'' ''t3_p2'' ''p2'' 5))"
  proof (rule user_chain.top_level)
    show "comment_data_of example_isoformat (example_comment ''c4'' ''t3_p2'' ''p2'' 5)
          \<in> set (map (comment_data_of example_isoformat) example_stream)"
      using example_c4_stream by (simp only: set_map) (rule imageI)
    show "is_submission_ref (parent_id (comment_data_of example_isoformat (example_comment ''c4'' ''t3_p2'' ''p2'' 5)))"
      using s by (simp add: comment_data_of_def)
  qed
  moreover have "c_id (example_comment ''c4'' ''t3_p2'' ''p2'' 5) \<notin> id' ` set (output_comments example_output)"
    unfolding example_output_ids by (simp add: example_comment_def)
  ultimately show ?thesis using example_c4_stream s example_run by blast
qed

text \<open>
  Claim C6. For a stream whose comment ids are pairwise different, the method returns, and a
  comment whose parent is not a submission and names a comment id that no comment of the stream
  on the target posts has (so, in particular, one that no comment of the stream has) is not in
  the result.
\<close>

theorem C6_dangling_parent_excluded:
  assumes d: "distinct (map c_id stream)"
    and c: "c \<in> set stream"
    and nt: "\<not> is_submission_ref (c_parent_id c)"
    and dangling: "referenced_comment (c_parent_id c)
                     \<notin> c_id ` {c' \<in> set stream. c_submission_id c' \<in> set post_ids}"
  shows "\<exists>out. get_user_comments_on_posts isoformat post_ids stream = Some out \<and>
               c_id c \<notin> id' ` set (output_comments out)"
proof -
  from total_distinct[OF d] obtain out where
    out: "get_user_comments_on_posts isoformat post_ids stream = Some out" by blast
  obtain auc tlc where fp: "first_pass isoformat post_ids stream ([], {}) = (auc, tlc)"
    by (cases "first_pass isoformat post_ids stream ([], {})")
  note con = first_pass_distinct_ids(3)[OF d fp]
  note tc = first_pass_distinct_ids(2)[OF d fp]
  have "c_id c \<notin> id' ` set (output_comments out)"
  proof
    assume "c_id c \<in> id' ` set (output_comments out)"
    then have k: "c_id c \<in> fst ` set auc" and ret: "retained auc tlc (c_id c)"
      unfolding output_ids[OF out fp] by simp_all
    from k key_on_target(1)[OF d fp c] have t: "c_submission_id c \<in> set post_ids" by simp
    from retained_iff_chain[OF con key_on_target(2)[OF d fp c t]] ret
    have "user_chain (map snd auc) (comment_data_of isoformat c)" by simp
    then show False
    proof (cases rule: user_chain.cases)
      case top_level
      with nt show False by (simp add: comment_data_of_def)
    next
      case (reply p)
      from reply(3) have "p \<in> set (target_comments isoformat post_ids stream)" by (simp only: tc)
      then obtain c' where c': "c' \<in> set stream" "c_submission_id c' \<in> set post_ids"
        "p = comment_data_of isoformat c'"
        by (auto simp: target_comments_def)
      from reply(4) c'(3) have "c_id c' = referenced_comment (c_parent_id c)"
        by (simp add: comment_data_of_def)
      with c'(1,2) dangling show False by force
    qed
  qed
  with out show ?thesis by blast
qed

theorem C6_dangling_parent_excluded_witness:
  "distinct (map c_id example_stream) \<and>
   example_comment ''c3'' ''t1_zz'' ''p1'' 30 \<in> set example_stream \<and>
   \<not> is_submission_ref (c_parent_id (example_comment ''c3'' ''t1_zz'' ''p1'' 30)) \<and>
   referenced_comment (c_parent_id (example_comment ''c3'' ''t1_zz'' ''p1'' 30))
     \<notin> c_id ` {c' \<in> set example_stream. c_submission_id c' \<in> set [''p1'']} \<and>
   (\<exists>out. get_user_comments_on_posts example_isoformat [''p1''] example_stream = Some out \<and>
          c_id (example_comment ''c3'' ''t1_zz'' ''p1'' 30) \<notin> id' ` set (output_comments out))"
proof -
  have nt: "\<not> is_submission_ref (c_parent_id (example_comment ''c3'' ''t1_zz'' ''p1'' 30))"
    by (simp add: is_submission_ref_def startswith_def example_comment_def)
  have dg: "referenced_comment (c_parent_id (example_comment ''c3'' ''t1_zz'' ''p1'' 30))
     \<notin> c_id ` {c' \<in> set example_stream. c_submission_id c' \<in> set [''p1'']}"
    by (auto simp: referenced_comment_def startswith_def example_comment_def example_stream_def)
  note t = C6_dangling_parent_excluded[OF example_distinct example_c3_stream nt dg, of example_isoformat]
  from example_distinct example_c3_stream nt dg t show ?thesis by blast
qed

lemma first_pass_depth0:
  assumes "first_pass fmt ps stream ([], {}) = (auc, tlc)" "(k, cd) \<in> set auc"
  shows "depth cd = 0"
  using first_pass_origin[OF assms] by (auto simp: comment_data_of_def)

text \<open>What the second pass did with one comment of the result.\<close>

lemma output_record_cases:
  assumes out: "get_user_comments_on_posts fmt ps stream = Some out"
    and fp: "first_pass fmt ps stream ([], {}) = (auc, tlc)"
    and r: "r \<in> set (output_comments out)"
  obtains cd where "(id' r, cd) \<in> set auc" "retained auc tlc (id' r)"
    "parent_id r = parent_id cd" "depth cd = 0" "r\<lparr>depth := 0\<rparr> = cd"
    "id' r \<in> tlc \<Longrightarrow> depth r = 0"
    "id' r \<notin> tlc \<Longrightarrow> depth_walk auc (parent_id cd) 0 = Some (depth r)"
proof (rule output_shape[OF out])
  fix auc' tlc' rs
  assume fp': "first_pass fmt ps stream ([], {}) = (auc', tlc')"
    and la': "list_all2 (\<lambda>kc r. assigned auc' tlc' kc = Some r)
               (filter (\<lambda>kc. retained auc' tlc' (fst kc)) auc') rs"
    and s: "set (output_comments out) = set rs"
  from fp fp' have eq: "auc' = auc" "tlc' = tlc" by simp_all
  from la' have la: "list_all2 (\<lambda>kc r. assigned auc tlc kc = Some r)
               (filter (\<lambda>kc. retained auc tlc (fst kc)) auc) rs" by (simp only: eq)
  from r s have "r \<in> set rs" by simp
  from list_all2_right[OF la this] obtain kc where
    kc: "kc \<in> set auc" "retained auc tlc (fst kc)" "assigned auc tlc kc = Some r" by auto
  from kc(1) have mem: "(fst kc, snd kc) \<in> set auc" by simp
  from first_pass_ids[OF fp mem] assigned_id[OF kc(3)] have k: "fst kc = id' r" by simp
  from first_pass_depth0[OF fp mem] have d0: "depth (snd kc) = 0" .
  note sh = assigned_shape[OF kc(3)]
  from sh have "parent_id r = parent_id ((snd kc)\<lparr>depth := depth r\<rparr>)" by (rule arg_cong)
  then have par: "parent_id r = parent_id (snd kc)" by simp
  from sh have "r\<lparr>depth := 0\<rparr> = (snd kc)\<lparr>depth := depth r\<rparr>\<lparr>depth := 0\<rparr>"
    by (rule arg_cong)
  with d0 have z: "r\<lparr>depth := 0\<rparr> = snd kc" by simp
  have top: "depth r = 0" if "id' r \<in> tlc"
  proof -
    from that k kc(3) have "r = snd kc" by (simp add: assigned_def)
    with d0 show ?thesis by simp
  qed
  have walk: "depth_walk auc (parent_id (snd kc)) 0 = Some (depth r)" if "id' r \<notin> tlc"
  proof -
    from that k kc(3) obtain dd where dd: "depth_walk auc (parent_id (snd kc)) 0 = Some dd"
      "r = (snd kc)\<lparr>depth := dd\<rparr>"
      by (auto simp: assigned_def)
    from dd(2) have "depth r = depth ((snd kc)\<lparr>depth := dd\<rparr>)" by (rule arg_cong)
    then have "depth r = dd" by simp
    with dd(1) show ?thesis by simp
  qed
  show ?thesis
    using mem kc(2) par d0 z top walk unfolding k by (rule that)
qed

lemma retained_output:
  assumes out: "get_user_comments_on_posts fmt ps stream = Some out"
    and fp: "first_pass fmt ps stream ([], {}) = (auc, tlc)"
    and k: "k \<in> fst ` set auc" and ret: "retained auc tlc k"
  shows "\<exists>q \<in> set (output_comments out). id' q = k"
proof -
  from k ret have "k \<in> {k \<in> fst ` set auc. retained auc tlc k}" by simp
  then have "k \<in> id' ` set (output_comments out)" by (simp only: output_ids[OF out fp])
  then show ?thesis by auto
qed

lemma parent_closed:
  assumes d: "distinct (map c_id stream)"
    and out: "get_user_comments_on_posts fmt ps stream = Some out"
    and r: "r \<in> set (output_comments out)"
    and t1: "startswith (parent_id r) ''t1_''"
  shows "\<exists>q \<in> set (output_comments out). id' q = drop 3 (parent_id r) \<and> depth r = depth q + 1"
proof -
  obtain auc tlc where fp: "first_pass fmt ps stream ([], {}) = (auc, tlc)"
    by (cases "first_pass fmt ps stream ([], {})")
  note con = first_pass_distinct_ids(3)[OF d fp]
  from con have dk: "distinct (map fst auc)" by (simp add: consistent_def)
  show ?thesis
  proof (rule output_record_cases[OF out fp r])
    fix cd
    assume mem: "(id' r, cd) \<in> set auc" and ret: "retained auc tlc (id' r)"
      and par: "parent_id r = parent_id cd"
      and walk: "id' r \<notin> tlc \<Longrightarrow> depth_walk auc (parent_id cd) 0 = Some (depth r)"
    from dk mem have look: "map_of auc (id' r) = Some cd" by (rule map_of_is_SomeI)
    from t1 par have t1': "startswith (parent_id cd) ''t1_''" by simp
    then have nt3: "\<not> startswith (parent_id cd) ''t3_''" using t3_not_t1 by blast
    with consistent_top[OF con look] have nottop: "id' r \<notin> tlc" by simp
    with ret have chain: "is_in_user_chain auc tlc (id' r) {}" by (simp add: retained_def)
    define pc where "pc = drop 3 (parent_id cd)"
    from chain nottop look nt3 t1'
    have pin: "pc \<in> fst ` set auc" and rec: "is_in_user_chain auc tlc pc {id' r}"
      by (subst (asm) is_in_user_chain.simps, simp add: pc_def Let_def)+
    from chain_visited_mono[OF rec, of "{}"] have "is_in_user_chain auc tlc pc {}" by simp
    then have retp: "retained auc tlc pc" by (simp add: retained_def)
    from retained_output[OF out fp pin retp] obtain q where
      q: "q \<in> set (output_comments out)" "id' q = pc" by blast
    have "depth r = depth q + 1"
    proof (rule output_record_cases[OF out fp q(1)])
      fix cq
      assume memq: "(id' q, cq) \<in> set auc"
        and topq: "id' q \<in> tlc \<Longrightarrow> depth q = 0"
        and walkq: "id' q \<notin> tlc \<Longrightarrow> depth_walk auc (parent_id cq) 0 = Some (depth q)"
      from dk memq have lookq: "map_of auc pc = Some cq" unfolding q(2) by (rule map_of_is_SomeI)
      from walk[OF nottop] t1' lookq
      have w1: "depth_walk auc (parent_id cq) 1 = Some (depth r)"
        by (subst (asm) depth_walk.simps) (simp add: pc_def Let_def)
      show ?thesis
      proof (cases "id' q \<in> tlc")
        case True
        with consistent_top[OF con lookq] q(2) have "startswith (parent_id cq) ''t3_''" by simp
        then have "\<not> startswith (parent_id cq) ''t1_''" by (rule t3_not_t1)
        with w1 have "depth r = 1" by (subst (asm) depth_walk.simps) simp
        with topq[OF True] show ?thesis by simp
      next
        case False
        from depth_walk_shift[OF walkq[OF False], of 1] w1 show ?thesis by simp
      qed
    qed
    with q par show ?thesis by (auto simp: pc_def)
  qed
qed

text \<open>
  Claim C9. For a stream whose comment ids are pairwise different, every comment of the result
  whose parent is a comment (\<^verbatim>\<open>parent_id\<close> starts with \<^verbatim>\<open>t1_\<close>) has that parent in the
  result, and its depth is the depth of the parent plus one.
\<close>

theorem C9_parent_closure:
  assumes "distinct (map c_id stream)"
    and "get_user_comments_on_posts isoformat post_ids stream = Some out"
    and "r \<in> set (output_comments out)"
    and "startswith (parent_id r) ''t1_''"
  shows "\<exists>q \<in> set (output_comments out). id' q = drop 3 (parent_id r) \<and> depth r = depth q + 1"
  using assms by (rule parent_closed)

theorem C9_parent_closure_witness:
  "distinct (map c_id example_stream) \<and>
   get_user_comments_on_posts example_isoformat [''p1''] example_stream = Some example_output \<and>
   example_data ''c2'' ''t1_c1'' ''p1'' 20 1 \<in> set (output_comments example_output) \<and>
   startswith (parent_id (example_data ''c2'' ''t1_c1'' ''p1'' 20 1)) ''t1_'' \<and>
   (\<exists>q \<in> set (output_comments example_output).
      id' q = drop 3 (parent_id (example_data ''c2'' ''t1_c1'' ''p1'' 20 1)) \<and>
      depth (example_data ''c2'' ''t1_c1'' ''p1'' 20 1) = depth q + 1)"
proof -
  have p: "startswith (parent_id (example_data ''c2'' ''t1_c1'' ''p1'' 20 1)) ''t1_''"
    by (simp add: startswith_def example_data_def comment_data_of_def example_comment_def)
  note t = C9_parent_closure[OF example_distinct example_run example_c2_out p]
  from example_distinct example_run example_c2_out p t show ?thesis by blast
qed

lemma depth_characterised:
  assumes d: "distinct (map c_id stream)"
    and wf: "\<forall>c \<in> set stream. startswith (c_parent_id c) ''t1_'' \<or> startswith (c_parent_id c) ''t3_''"
    and out: "get_user_comments_on_posts fmt ps stream = Some out"
    and r: "r \<in> set (output_comments out)"
  shows "0 \<le> depth r \<and> (depth r = 0 \<longleftrightarrow> is_submission_ref (parent_id r)) \<and>
         hops (target_comments fmt ps stream) (r\<lparr>depth := 0\<rparr>) (nat (depth r))"
proof -
  obtain auc tlc where fp: "first_pass fmt ps stream ([], {}) = (auc, tlc)"
    by (cases "first_pass fmt ps stream ([], {})")
  note con = first_pass_distinct_ids(3)[OF d fp]
  note tc = first_pass_distinct_ids(2)[OF d fp]
  from con have dk: "distinct (map fst auc)" by (simp add: consistent_def)
  have wf': "\<forall>c \<in> set (map snd auc). startswith (parent_id c) ''t1_'' \<or> startswith (parent_id c) ''t3_''"
    unfolding tc using wf by (auto simp: target_comments_def comment_data_of_def)
  show ?thesis
  proof (rule output_record_cases[OF out fp r])
    fix cd
    assume mem: "(id' r, cd) \<in> set auc" and ret: "retained auc tlc (id' r)"
      and par: "parent_id r = parent_id cd"
      and z: "r\<lparr>depth := 0\<rparr> = cd"
      and top: "id' r \<in> tlc \<Longrightarrow> depth r = 0"
      and walk: "id' r \<notin> tlc \<Longrightarrow> depth_walk auc (parent_id cd) 0 = Some (depth r)"
    from dk mem have look: "map_of auc (id' r) = Some cd" by (rule map_of_is_SomeI)
    from mem have cdin: "cd \<in> set (map snd auc)" by force
    from retained_iff_chain[OF con mem] ret have "user_chain (map snd auc) cd" by simp
    then obtain n where h: "hops (map snd auc) cd n" by (auto simp: user_chain_hops)
    show ?thesis
    proof (cases "id' r \<in> tlc")
      case True
      with consistent_top[OF con look] have t3: "is_submission_ref (parent_id cd)"
        by (simp add: is_submission_ref_def)
      with cdin have "hops (map snd auc) cd 0" by (rule hops.root)
      with top[OF True] t3 par z show ?thesis by (simp add: tc)
    next
      case False
      with consistent_top[OF con look] have nt3: "\<not> is_submission_ref (parent_id cd)"
        by (simp add: is_submission_ref_def)
      from depth_walk_hops_exact[OF con wf' h, of 0] walk[OF False]
      have dr: "depth r = int n" by simp
      from h nt3 have "n \<noteq> 0" by (auto elim: hops.cases)
      with dr h nt3 par z show ?thesis by (simp add: tc)
    qed
  qed
qed

lemma scenario_reply:
  assumes ne: "c_id c1 \<noteq> c_id c2"
    and p1: "c_parent_id c1 = ''t3_'' @ p" and s1: "c_submission_id c1 = p"
    and p2: "c_parent_id c2 = ''t1_'' @ c_id c1" and s2: "c_submission_id c2 = p"
    and t: "c_created_utc c1 < c_created_utc c2"
  shows "get_user_comments_on_posts fmt [p] [c1, c2] =
           Some [(p, [comment_data_of fmt c1, (comment_data_of fmt c2)\<lparr>depth := 1\<rparr>])]"
    and "get_user_comments_on_posts fmt [p] [c2, c1] =
           Some [(p, [comment_data_of fmt c1, (comment_data_of fmt c2)\<lparr>depth := 1\<rparr>])]"
proof -
  let ?d1 = "comment_data_of fmt c1" and ?d2 = "comment_data_of fmt c2"
  have par: "parent_id ?d1 = ''t3_'' @ p" "parent_id ?d2 = ''t1_'' @ c_id c1"
    "post_id ?d1 = p" "post_id ?d2 = p" "created_utc ?d1 = c_created_utc c1"
    "created_utc ?d2 = c_created_utc c2"
    by (simp_all add: comment_data_of_def p1 p2 s1 s2)
  have sw: "startswith (''t3_'' @ p) ''t3_''" "\<not> startswith (''t1_'' @ c_id c1) ''t3_''"
    "startswith (''t1_'' @ c_id c1) ''t1_''" "\<not> startswith (''t3_'' @ p) ''t1_''"
    by (simp_all add: startswith_def)
  have fp12: "first_pass fmt [p] [c1, c2] ([], {}) = ([(c_id c1, ?d1), (c_id c2, ?d2)], {c_id c1})"
    using ne by (simp add: p1 p2 s1 s2 startswith_def)
  have fp21: "first_pass fmt [p] [c2, c1] ([], {}) = ([(c_id c2, ?d2), (c_id c1, ?d1)], {c_id c1})"
    using ne by (simp add: p1 p2 s1 s2 startswith_def)
  have ch12: "is_in_user_chain [(c_id c1, ?d1), (c_id c2, ?d2)] {c_id c1} (c_id c2) {}"
    using ne by (simp add: is_in_user_chain.simps[of _ _ _ "{}"] is_in_user_chain.simps[of _ _ _ "{c_id c2}"] par startswith_def)
  have ch21: "is_in_user_chain [(c_id c2, ?d2), (c_id c1, ?d1)] {c_id c1} (c_id c2) {}"
    using ne by (simp add: is_in_user_chain.simps[of _ _ _ "{}"] is_in_user_chain.simps[of _ _ _ "{c_id c2}"] par startswith_def)
  have w12: "depth_walk [(c_id c1, ?d1), (c_id c2, ?d2)] (parent_id (comment_data_of fmt c2)) 0 = Some 1"
    apply (subst depth_walk.simps)
    apply (simp add: par startswith_def Let_def ne ne[symmetric])
    apply (subst depth_walk.simps)
    apply (simp add: startswith_def)
    done
  have w21: "depth_walk [(c_id c2, ?d2), (c_id c1, ?d1)] (parent_id (comment_data_of fmt c2)) 0 = Some 1"
    apply (subst depth_walk.simps)
    apply (simp add: par startswith_def Let_def ne ne[symmetric])
    apply (subst depth_walk.simps)
    apply (simp add: startswith_def)
    done
  have sp12: "second_pass [(c_id c1, ?d1), (c_id c2, ?d2)] {c_id c1} [(c_id c1, ?d1), (c_id c2, ?d2)] []
               = Some [(p, [?d1, ?d2\<lparr>depth := 1\<rparr>])]"
    using ne ch12 by (simp add: w12 par(3,4) append_comment_def)
  have sp21: "second_pass [(c_id c2, ?d2), (c_id c1, ?d1)] {c_id c1} [(c_id c2, ?d2), (c_id c1, ?d1)] []
               = Some [(p, [?d2\<lparr>depth := 1\<rparr>, ?d1])]"
    using ne ch21 by (simp add: w21 par(3,4) append_comment_def)
  show "get_user_comments_on_posts fmt [p] [c1, c2] = Some [(p, [?d1, ?d2\<lparr>depth := 1\<rparr>])]"
    unfolding get_user_comments_on_posts_def
    apply (simp only: fp12 prod.case sp12 option.case)
    using t apply (simp add: sort_groups_def par(5,6))
    done
  show "get_user_comments_on_posts fmt [p] [c2, c1] = Some [(p, [?d1, ?d2\<lparr>depth := 1\<rparr>])]"
    unfolding get_user_comments_on_posts_def
    apply (simp only: fp21 prod.case sp21 option.case)
    using t apply (simp add: sort_groups_def par(5,6))
    done
qed

lemma example_tagged:
  "\<forall>c \<in> set example_stream. startswith (c_parent_id c) ''t1_'' \<or> startswith (c_parent_id c) ''t3_''"
  by (simp add: example_stream_def example_comment_def startswith_def)

text \<open>
  Claim C2. For a stream whose comment ids are pairwise different and whose parent ids all
  carry one of the prefixes \<^verbatim>\<open>t1_\<close> (a comment) and \<^verbatim>\<open>t3_\<close> (a submission), every
  comment of the result has a depth that is not negative, that is 0 exactly when the parent is
  a submission, and that is the number of parent hops from the comment to the top-level comment
  of its chain, counted in the collection of the stream's comments on the target posts. For a
  top-level comment \<open>c1\<close> on the post \<open>p\<close> and its reply \<open>c2\<close>, created later, the result for
  the target \<open>p\<close> is \<open>c1\<close> with depth 0 followed by \<open>c2\<close> with depth 1, in whichever order the
  stream delivers the two.
\<close>

theorem C2_depth:
  "(distinct (map c_id stream) \<longrightarrow>
    (\<forall>c \<in> set stream. startswith (c_parent_id c) ''t1_'' \<or> startswith (c_parent_id c) ''t3_'') \<longrightarrow>
    get_user_comments_on_posts isoformat post_ids stream = Some out \<longrightarrow>
    r \<in> set (output_comments out) \<longrightarrow>
      0 \<le> depth r \<and> (depth r = 0 \<longleftrightarrow> is_submission_ref (parent_id r)) \<and>
      hops (target_comments isoformat post_ids stream) (r\<lparr>depth := 0\<rparr>) (nat (depth r)))
   \<and>
   (c_id c1 \<noteq> c_id c2 \<longrightarrow>
    c_parent_id c1 = ''t3_'' @ p \<longrightarrow> c_submission_id c1 = p \<longrightarrow>
    c_parent_id c2 = ''t1_'' @ c_id c1 \<longrightarrow> c_submission_id c2 = p \<longrightarrow>
    c_created_utc c1 < c_created_utc c2 \<longrightarrow>
      get_user_comments_on_posts isoformat [p] [c1, c2] =
        Some [(p, [comment_data_of isoformat c1, (comment_data_of isoformat c2)\<lparr>depth := 1\<rparr>])] \<and>
      get_user_comments_on_posts isoformat [p] [c2, c1] =
        Some [(p, [comment_data_of isoformat c1, (comment_data_of isoformat c2)\<lparr>depth := 1\<rparr>])])"
proof (rule conjI)
  show "distinct (map c_id stream) \<longrightarrow>
    (\<forall>c \<in> set stream. startswith (c_parent_id c) ''t1_'' \<or> startswith (c_parent_id c) ''t3_'') \<longrightarrow>
    get_user_comments_on_posts isoformat post_ids stream = Some out \<longrightarrow>
    r \<in> set (output_comments out) \<longrightarrow>
      0 \<le> depth r \<and> (depth r = 0 \<longleftrightarrow> is_submission_ref (parent_id r)) \<and>
      hops (target_comments isoformat post_ids stream) (r\<lparr>depth := 0\<rparr>) (nat (depth r))"
    by (intro impI) (rule depth_characterised)
  show "c_id c1 \<noteq> c_id c2 \<longrightarrow>
    c_parent_id c1 = ''t3_'' @ p \<longrightarrow> c_submission_id c1 = p \<longrightarrow>
    c_parent_id c2 = ''t1_'' @ c_id c1 \<longrightarrow> c_submission_id c2 = p \<longrightarrow>
    c_created_utc c1 < c_created_utc c2 \<longrightarrow>
      get_user_comments_on_posts isoformat [p] [c1, c2] =
        Some [(p, [comment_data_of isoformat c1, (comment_data_of isoformat c2)\<lparr>depth := 1\<rparr>])] \<and>
      get_user_comments_on_posts isoformat [p] [c2, c1] =
        Some [(p, [comment_data_of isoformat c1, (comment_data_of isoformat c2)\<lparr>depth := 1\<rparr>])]"
    by (intro impI conjI) (rule scenario_reply; assumption)+
qed

theorem C2_depth_witness:
  "distinct (map c_id example_stream) \<and>
   list_all (\<lambda>c. startswith (c_parent_id c) ''t1_'' \<or> startswith (c_parent_id c) ''t3_'')
     example_stream \<and>
   get_user_comments_on_posts example_isoformat [''p1''] example_stream = Some example_output \<and>
   example_data ''c2'' ''t1_c1'' ''p1'' 20 1 \<in> set (output_comments example_output) \<and>
   0 \<le> depth (example_data ''c2'' ''t1_c1'' ''p1'' 20 1) \<and>
   (depth (example_data ''c2'' ''t1_c1'' ''p1'' 20 1) = 0)
     = is_submission_ref (parent_id (example_data ''c2'' ''t1_c1'' ''p1'' 20 1)) \<and>
   hops (target_comments example_isoformat [''p1''] example_stream)
     ((example_data ''c2'' ''t1_c1'' ''p1'' 20 1)\<lparr>depth := 0\<rparr>)
     (nat (depth (example_data ''c2'' ''t1_c1'' ''p1'' 20 1))) \<and>
   c_id (example_comment ''c1'' ''t3_p1'' ''p1'' 10) \<noteq> c_id (example_comment ''c2'' ''t1_c1'' ''p1'' 20) \<and>
   c_created_utc (example_comment ''c1'' ''t3_p1'' ''p1'' 10)
     < c_created_utc (example_comment ''c2'' ''t1_c1'' ''p1'' 20) \<and>
   get_user_comments_on_posts example_isoformat [''p1'']
       [example_comment ''c2'' ''t1_c1'' ''p1'' 20, example_comment ''c1'' ''t3_p1'' ''p1'' 10] =
     Some [(''p1'', [comment_data_of example_isoformat (example_comment ''c1'' ''t3_p1'' ''p1'' 10),
                    (comment_data_of example_isoformat (example_comment ''c2'' ''t1_c1'' ''p1'' 20))
                      \<lparr>depth := 1\<rparr>])]"
proof -
  note t = C2_depth[of example_stream example_isoformat "[''p1'']" example_output
      "example_data ''c2'' ''t1_c1'' ''p1'' 20 1"
      "example_comment ''c1'' ''t3_p1'' ''p1'' 10" "example_comment ''c2'' ''t1_c1'' ''p1'' 20"
      "''p1''"]
  have la: "list_all (\<lambda>c. startswith (c_parent_id c) ''t1_'' \<or> startswith (c_parent_id c) ''t3_'')
     example_stream"
    using example_tagged by (simp only: list_all_iff)
  have ne: "c_id (example_comment ''c1'' ''t3_p1'' ''p1'' 10) \<noteq> c_id (example_comment ''c2'' ''t1_c1'' ''p1'' 20)"
    and lt: "c_created_utc (example_comment ''c1'' ''t3_p1'' ''p1'' 10)
              < c_created_utc (example_comment ''c2'' ''t1_c1'' ''p1'' 20)"
    and p1: "c_parent_id (example_comment ''c1'' ''t3_p1'' ''p1'' 10) = ''t3_'' @ ''p1''"
    and s1: "c_submission_id (example_comment ''c1'' ''t3_p1'' ''p1'' 10) = ''p1''"
    and p2: "c_parent_id (example_comment ''c2'' ''t1_c1'' ''p1'' 20)
              = ''t1_'' @ c_id (example_comment ''c1'' ''t3_p1'' ''p1'' 10)"
    and s2: "c_submission_id (example_comment ''c2'' ''t1_c1'' ''p1'' 20) = ''p1''"
    by (simp_all add: example_comment_def)
  from t[THEN conjunct1, THEN mp, OF example_distinct, THEN mp, OF example_tagged, THEN mp,
      OF example_run, THEN mp, OF example_c2_out]
  have g: "0 \<le> depth (example_data ''c2'' ''t1_c1'' ''p1'' 20 1) \<and>
   (depth (example_data ''c2'' ''t1_c1'' ''p1'' 20 1) = 0)
     = is_submission_ref (parent_id (example_data ''c2'' ''t1_c1'' ''p1'' 20 1)) \<and>
   hops (target_comments example_isoformat [''p1''] example_stream)
     ((example_data ''c2'' ''t1_c1'' ''p1'' 20 1)\<lparr>depth := 0\<rparr>)
     (nat (depth (example_data ''c2'' ''t1_c1'' ''p1'' 20 1)))" .
  from t[THEN conjunct2, rule_format, OF ne p1 s1 p2 s2 lt, THEN conjunct2]
  have sc: "get_user_comments_on_posts example_isoformat [''p1'']
       [example_comment ''c2'' ''t1_c1'' ''p1'' 20, example_comment ''c1'' ''t3_p1'' ''p1'' 10] =
     Some [(''p1'', [comment_data_of example_isoformat (example_comment ''c1'' ''t3_p1'' ''p1'' 10),
                    (comment_data_of example_isoformat (example_comment ''c2'' ''t1_c1'' ''p1'' 20))
                      \<lparr>depth := 1\<rparr>])]" .
  from example_distinct la example_run example_c2_out g ne lt sc show ?thesis
    by (elim conjE) (intro conjI)
qed

lemma t1_ref: "startswith (''t1_'' @ k) ''t1_''" "\<not> is_submission_ref (''t1_'' @ k)"
  "referenced_comment (''t1_'' @ k) = k"
  by (simp_all add: startswith_def is_submission_ref_def referenced_comment_def)

lemma no_hops_on_cycle:
  assumes du: "distinct (map id' cds)"
  shows "x \<in> set cds \<Longrightarrow> y \<in> set cds \<Longrightarrow> parent_id x = ''t1_'' @ id' y
         \<Longrightarrow> parent_id y = ''t1_'' @ id' x \<Longrightarrow> \<not> hops cds x n"
proof (induction n arbitrary: x y rule: less_induct)
  case (less n)
  show ?case
  proof
    assume "hops cds x n"
    then show False
    proof (cases rule: hops.cases)
      case root
      with less.prems(3) show False by (simp add: startswith_def is_submission_ref_def referenced_comment_def)
    next
      case (hop p m)
      from hop(5) less.prems(3) have "id' p = id' y" by (simp add: startswith_def is_submission_ref_def referenced_comment_def)
      with du hop(4) less.prems(2) have "p = y" by (meson distinct_map inj_onD)
      with hop(6) have "hops cds y m" by simp
      moreover from hop(1) have "m < n" by simp
      ultimately show False using less.IH[OF _ less.prems(2,1,4,3)] by blast
    qed
  qed
qed

lemma cycle_excluded:
  assumes d: "distinct (map c_id stream)"
    and out: "get_user_comments_on_posts fmt ps stream = Some out"
    and a: "a \<in> set stream" and b: "b \<in> set stream"
    and pa: "c_parent_id a = ''t1_'' @ c_id b"
    and pb: "c_parent_id b = ''t1_'' @ c_id a"
  shows "c_id a \<notin> id' ` set (output_comments out)"
proof
  assume m: "c_id a \<in> id' ` set (output_comments out)"
  obtain auc tlc where fp: "first_pass fmt ps stream ([], {}) = (auc, tlc)"
    by (cases "first_pass fmt ps stream ([], {})")
  note con = first_pass_distinct_ids(3)[OF d fp]
  note tc = first_pass_distinct_ids(2)[OF d fp]
  let ?cds = "map snd auc"
  from m have k: "c_id a \<in> fst ` set auc" and ret: "retained auc tlc (c_id a)"
    unfolding output_ids[OF out fp] by simp_all
  from k key_on_target(1)[OF d fp a] have ta: "c_submission_id a \<in> set ps" by simp
  note mema = key_on_target(2)[OF d fp a ta]
  from mema have ain: "comment_data_of fmt a \<in> set ?cds" by force
  from retained_iff_chain[OF con mema] ret
  have "user_chain ?cds (comment_data_of fmt a)" by simp
  then obtain n where h: "hops ?cds (comment_data_of fmt a) n" by (auto simp: user_chain_hops)
  have para: "parent_id (comment_data_of fmt a) = ''t1_'' @ id' (comment_data_of fmt b)"
    and parb: "parent_id (comment_data_of fmt b) = ''t1_'' @ id' (comment_data_of fmt a)"
    by (simp_all add: comment_data_of_def pa pb)
  from h have bin: "comment_data_of fmt b \<in> set ?cds"
  proof (cases rule: hops.cases)
    case root
    with para show ?thesis by (simp add: startswith_def is_submission_ref_def referenced_comment_def)
  next
    case (hop p m)
    from hop(4) have "p \<in> set (target_comments fmt ps stream)" by (simp only: tc)
    then obtain c' where c': "c' \<in> set stream" "p = comment_data_of fmt c'"
      by (auto simp: target_comments_def)
    from hop(5) para c'(2) have "c_id c' = c_id b" by (simp add: startswith_def is_submission_ref_def referenced_comment_def comment_data_of_def)
    with d c'(1) b have "c' = b" by (meson distinct_map inj_onD)
    with c'(2) hop(4) show ?thesis by simp
  qed
  from no_hops_on_cycle[OF consistent_distinct[OF con] ain bin para parb] h show False by blast
qed

lemma example_cyclic_run:
  "get_user_comments_on_posts example_isoformat [''p1''] example_cyclic_stream
     = Some example_cyclic_output"
  by code_simp

lemma example_duplicate_first_pass:
  "first_pass example_isoformat [''p1''] example_duplicate_stream ([], {})
     = (example_duplicate_index, {''x''})"
  by (simp add: example_duplicate_stream_def example_duplicate_index_def example_comment_def
      startswith_def)

lemma example_duplicate_walk:
  "depth_walk auc cp d = Some r \<Longrightarrow> auc = example_duplicate_index
     \<Longrightarrow> cp \<noteq> ''t1_x'' \<and> cp \<noteq> ''t1_y''"
proof (induct rule: depth_walk.raw_induct[rotated, consumes 1])
  case (1 walk auc cp d r)
  note IH = 1(1) and step = 1(2) and idx = 1(3)
  show ?case
  proof (intro conjI notI)
    assume cp: "cp = ''t1_x''"
    with step idx have "walk example_duplicate_index ''t1_y'' (d + 1) = Some r"
      by (simp add: startswith_def example_duplicate_index_def comment_data_of_def
          example_comment_def Let_def)
    from IH[OF this] show False by simp
  next
    assume cp: "cp = ''t1_y''"
    with step idx have "walk example_duplicate_index ''t1_x'' (d + 1) = Some r"
      by (simp add: startswith_def example_duplicate_index_def comment_data_of_def
          example_comment_def Let_def)
    from IH[OF this] show False by simp
  qed
qed

lemma example_duplicate_walk_None:
  "depth_walk example_duplicate_index ''t1_x'' 0 = None"
proof (cases "depth_walk example_duplicate_index ''t1_x'' 0")
  case None
  then show ?thesis .
next
  case (Some r)
  from example_duplicate_walk[OF Some] show ?thesis by simp
qed

lemma example_duplicate_chain:
  "is_in_user_chain example_duplicate_index {''x''} ''y'' {}"
  by code_simp

lemma example_duplicate_second_pass:
  "second_pass example_duplicate_index {''x''} example_duplicate_index [] = None"
proof -
  have p: "parent_id (comment_data_of example_isoformat (example_comment ''y'' ''t1_x'' ''p1'' 20))
            = ''t1_x''"
    by (simp add: comment_data_of_def example_comment_def)
  show ?thesis
    unfolding example_duplicate_index_def
    apply (simp only: second_pass.simps)
    apply (fold example_duplicate_index_def)
    apply (simp add: example_duplicate_chain p example_duplicate_walk_None)
    done
qed

lemma example_cyclic_distinct: "distinct (map c_id example_cyclic_stream)"
  by (simp add: example_cyclic_stream_def example_comment_def)

lemma example_cyclic_members:
  "example_comment ''a'' ''t1_b'' ''p1'' 40 \<in> set example_cyclic_stream"
  "example_comment ''b'' ''t1_a'' ''p1'' 30 \<in> set example_cyclic_stream"
  "example_comment ''s'' ''t1_s'' ''p1'' 20 \<in> set example_cyclic_stream"
  by (simp_all add: example_cyclic_stream_def)

lemma example_cyclic_parents:
  "c_parent_id (example_comment ''a'' ''t1_b'' ''p1'' 40)
     = ''t1_'' @ c_id (example_comment ''b'' ''t1_a'' ''p1'' 30)"
  "c_parent_id (example_comment ''b'' ''t1_a'' ''p1'' 30)
     = ''t1_'' @ c_id (example_comment ''a'' ''t1_b'' ''p1'' 40)"
  "c_parent_id (example_comment ''s'' ''t1_s'' ''p1'' 20)
     = ''t1_'' @ c_id (example_comment ''s'' ''t1_s'' ''p1'' 20)"
  by (simp_all add: example_comment_def)

text \<open>
  Claim C3. \<^const>\<open>is_in_user_chain\<close> is a total function on every collection: its
  termination proof uses nothing but the \<^verbatim>\<open>visited\<close> guard. For every stream of the data
  model, whose comment ids are pairwise different, however its parent references are formed, the
  whole method returns: the depth loop, which has no guard of its own, runs only on comments
  whose parents lead to a top-level comment. In such a stream two comments that are each other's
  parent are both left out of the result, and so is a comment that is its own parent.
\<close>

theorem C3_total_unique_ids:
  assumes "distinct (map c_id stream)"
  shows "(\<exists>out. get_user_comments_on_posts isoformat post_ids stream = Some out) \<and>
         (\<forall>out a b. get_user_comments_on_posts isoformat post_ids stream = Some out \<longrightarrow>
            a \<in> set stream \<longrightarrow> b \<in> set stream \<longrightarrow>
            c_parent_id a = ''t1_'' @ c_id b \<longrightarrow> c_parent_id b = ''t1_'' @ c_id a \<longrightarrow>
              c_id a \<notin> id' ` set (output_comments out) \<and>
              c_id b \<notin> id' ` set (output_comments out)) \<and>
         (\<forall>out a. get_user_comments_on_posts isoformat post_ids stream = Some out \<longrightarrow>
            a \<in> set stream \<longrightarrow> c_parent_id a = ''t1_'' @ c_id a \<longrightarrow>
              c_id a \<notin> id' ` set (output_comments out))"
proof (intro conjI allI impI)
  show "\<exists>out. get_user_comments_on_posts isoformat post_ids stream = Some out"
    using assms by (rule total_distinct)
next
  fix out a b
  assume "get_user_comments_on_posts isoformat post_ids stream = Some out"
    "a \<in> set stream" "b \<in> set stream"
    "c_parent_id a = ''t1_'' @ c_id b" "c_parent_id b = ''t1_'' @ c_id a"
  then show "c_id a \<notin> id' ` set (output_comments out)"
    and "c_id b \<notin> id' ` set (output_comments out)"
    using assms by (blast intro: cycle_excluded[THEN notE])+
next
  fix out a
  assume "get_user_comments_on_posts isoformat post_ids stream = Some out"
    "a \<in> set stream" "c_parent_id a = ''t1_'' @ c_id a"
  then show "c_id a \<notin> id' ` set (output_comments out)"
    using assms by (blast intro: cycle_excluded[THEN notE])
qed

theorem C3_total_unique_ids_witness:
  "distinct (map c_id example_cyclic_stream) \<and>
   get_user_comments_on_posts example_isoformat [''p1''] example_cyclic_stream
     = Some example_cyclic_output \<and>
   c_id (example_comment ''a'' ''t1_b'' ''p1'' 40) \<notin> id' ` set (output_comments example_cyclic_output) \<and>
   c_id (example_comment ''b'' ''t1_a'' ''p1'' 30) \<notin> id' ` set (output_comments example_cyclic_output) \<and>
   c_id (example_comment ''s'' ''t1_s'' ''p1'' 20) \<notin> id' ` set (output_comments example_cyclic_output)"
proof -
  note t = C3_total_unique_ids[OF example_cyclic_distinct, of example_isoformat "[''p1'']"]
  note cyc = t[THEN conjunct2, THEN conjunct1, rule_format]
  note self = t[THEN conjunct2, THEN conjunct2, rule_format]
  note ab = cyc[OF example_cyclic_run example_cyclic_members(1,2) example_cyclic_parents(1,2)]
  note ss = self[OF example_cyclic_run example_cyclic_members(3) example_cyclic_parents(3)]
  from example_cyclic_distinct example_cyclic_run ab ss show ?thesis
    by (elim conjE) (intro conjI)
qed

text \<open>
  The condition on the ids is used. A stream that delivers the id \<open>x\<close> twice with two
  different parents, first as a top-level comment and then as a reply to \<open>y\<close>, itself a reply
  to \<open>x\<close>, is outside the data model, and no listing of a user's comments is of this kind.
  On it \<open>x\<close> stays in \<^verbatim>\<open>top_level_comment_ids\<close> while its entry of
  \<^verbatim>\<open>all_user_comments\<close> is replaced, \<open>y\<close> passes the membership test through \<open>x\<close>, and
  the depth loop of \<open>y\<close> goes from \<open>x\<close> to \<open>y\<close> and back without end.
\<close>

lemma duplicate_ids_depth_loop:
  "get_user_comments_on_posts example_isoformat [''p1''] example_duplicate_stream = None"
  unfolding get_user_comments_on_posts_def
  by (simp only: example_duplicate_first_pass prod.case example_duplicate_second_pass option.case)

end
